theory Spec2Isabelle
  imports Complex_Main "HOL-Library.Multiset" "HOL-Library.Signed_Division"
begin

chapter \<open>The program\<close>

section \<open>The scheduling unit and Python's primitives\<close>

text \<open>
  The program under study is \<^verbatim>\<open>serious.py\<close>, a spaced-repetition scheduler.
  Python integers are unbounded and are modelled as \<^typ>\<open>int\<close>. Python floats
  (the clock \<^verbatim>\<open>time.time()\<close> and the entries of the interval table) are modelled as
  \<^typ>\<open>real\<close>: rounding of floating-point operations is not part of the model.
  Every exception the modelled code can raise is a value of \<open>error\<close>.
\<close>

datatype error =
    IndexError
  | TypeError
  | EOFError
  | IntegrityError
  | ProgrammingError
  | FileNotFoundError
  | ZeroDivisionError
  | ValueError

text \<open>
  \<^verbatim>\<open>
  @dataclasses.dataclass(frozen=True)
  class Item:
      rowid: int = 0
      review_time: int = 0
      trial: int = 0

      def __lt__(self, b):
          return self.review_time < b.review_time
  \<close>
\<close>

record Item =
  rowid :: int
  review_time :: int
  trial :: int

definition Item_lt :: "Item \<Rightarrow> Item \<Rightarrow> bool" where
  "Item_lt a b = (review_time a < review_time b)"

text \<open>
  List subscription \<^verbatim>\<open>xs[i]\<close>: a negative index counts from the end, and an index
  outside \<open>-len \<dots> len - 1\<close> raises \<^verbatim>\<open>IndexError\<close>.
\<close>

definition py_getitem :: "'a list \<Rightarrow> int \<Rightarrow> error + 'a" where
  "py_getitem xs i =
     (let n = int (length xs);
          j = (if i < 0 then i + n else i)
      in if 0 \<le> j \<and> j < n then Inr (xs ! nat j) else Inl IndexError)"

text \<open>\<^verbatim>\<open>int(x)\<close> of a float discards the fractional part (rounds toward zero).\<close>

definition py_int :: "real \<Rightarrow> int" where
  "py_int x = (if 0 \<le> x then \<lfloor>x\<rfloor> else \<lceil>x\<rceil>)"

section \<open>Trial transitions\<close>

text \<open>
  \<^verbatim>\<open>
  def _update_items(item, intervals, trial):
      return dataclasses.replace(
          item,
          trial=trial,
          review_time=int(time.time() + intervals[trial]),
      )
  \<close>
  The reading of the clock is the extra argument \<open>now\<close>.
\<close>

definition update_items :: "real \<Rightarrow> Item \<Rightarrow> real list \<Rightarrow> int \<Rightarrow> error + Item" where
  "update_items now item intervals t =
     (case py_getitem intervals t of
        Inl e \<Rightarrow> Inl e
      | Inr d \<Rightarrow> Inr (item\<lparr>trial := t, review_time := py_int (now + d)\<rparr>))"

text \<open>
  \<^verbatim>\<open>
  def add_success(item, intervals):
      return _update_items(
          item,
          intervals,
          min(len(intervals) - 1, item.trial + 1),
      )

  def add_failure(item, intervals):
      return _update_items(item, intervals, item.trial // 2)
  \<close>
  Python's \<^verbatim>\<open>//\<close> rounds toward minus infinity, as \<open>div\<close> on \<^typ>\<open>int\<close> does.
\<close>

definition add_success :: "real \<Rightarrow> Item \<Rightarrow> real list \<Rightarrow> error + Item" where
  "add_success now item intervals =
     update_items now item intervals (min (int (length intervals) - 1) (trial item + 1))"

definition add_failure :: "real \<Rightarrow> Item \<Rightarrow> real list \<Rightarrow> error + Item" where
  "add_failure now item intervals =
     update_items now item intervals (trial item div 2)"

section \<open>The interval table\<close>

text \<open>
  \<^verbatim>\<open>
  def compute_intervals(trials, hours):
      c = math.log(hours + 1) / trials
      return [(math.exp(n * c) - 1) * 60 * 60 for n in range(trials + 1)]
  \<close>
  Both parameters are integers (\<^verbatim>\<open>type=int\<close> on the command line).
  \<^verbatim>\<open>math.log\<close> raises \<^verbatim>\<open>ValueError\<close> outside its domain and the division raises
  \<^verbatim>\<open>ZeroDivisionError\<close>; \<^verbatim>\<open>range\<close> of a non-positive number is empty. The table
  is a list of reals: overflow and rounding of the floating-point operations are not
  part of the model.
\<close>

definition compute_intervals :: "int \<Rightarrow> int \<Rightarrow> error + real list" where
  "compute_intervals trials hours =
     (if hours + 1 \<le> 0 then Inl ValueError
      else if trials = 0 then Inl ZeroDivisionError
      else let c = ln (real_of_int (hours + 1)) / real_of_int trials
           in Inr (map (\<lambda>n. (exp (real n * c) - 1) * 60 * 60) [0 ..< nat (trials + 1)]))"

section \<open>The due queue: Python's \<open>heapq\<close> on a list of items\<close>

text \<open>
  The queue of the session is a Python list kept as a binary heap by the standard
  library module \<^verbatim>\<open>heapq\<close>, which compares elements with \<^verbatim>\<open><\<close> only, here
  \<^verbatim>\<open>Item.__lt__\<close>. The functions below follow \<^verbatim>\<open>heapq.py\<close> of CPython 3.11 line by
  line; the in-place updates of the list are passed on as the new list. All
  positions these functions read are inside the list whenever \<^verbatim>\<open>heappush\<close>,
  \<^verbatim>\<open>heappop\<close> and \<^verbatim>\<open>heapify\<close> call them.

  \<^verbatim>\<open>
  def _siftdown(heap, startpos, pos):
      newitem = heap[pos]
      while pos > startpos:
          parentpos = (pos - 1) >> 1
          parent = heap[parentpos]
          if newitem < parent:
              heap[pos] = parent
              pos = parentpos
              continue
          break
      heap[pos] = newitem
  \<close>
\<close>

function siftdown_loop :: "Item list \<Rightarrow> Item \<Rightarrow> nat \<Rightarrow> nat \<Rightarrow> Item list \<times> nat" where
  "siftdown_loop heap newitem startpos pos =
     (if pos > startpos then
        let parentpos = (pos - 1) div 2;
            parent = heap ! parentpos
        in if Item_lt newitem parent
           then siftdown_loop (heap[pos := parent]) newitem startpos parentpos
           else (heap, pos)
      else (heap, pos))"
  by pat_completeness auto
termination
  by (relation "measure (\<lambda>(heap, newitem, startpos, pos). pos)") auto

definition siftdown :: "Item list \<Rightarrow> nat \<Rightarrow> nat \<Rightarrow> Item list" where
  "siftdown heap startpos pos =
     (let newitem = heap ! pos;
          (heap', pos') = siftdown_loop heap newitem startpos pos
      in heap'[pos' := newitem])"

text \<open>
  \<^verbatim>\<open>
  def _siftup(heap, pos):
      endpos = len(heap)
      startpos = pos
      newitem = heap[pos]
      childpos = 2*pos + 1
      while childpos < endpos:
          rightpos = childpos + 1
          if rightpos < endpos and not heap[childpos] < heap[rightpos]:
              childpos = rightpos
          heap[pos] = heap[childpos]
          pos = childpos
          childpos = 2*pos + 1
      heap[pos] = newitem
      _siftdown(heap, startpos, pos)
  \<close>
  In the loop \<^verbatim>\<open>childpos\<close> is always \<^verbatim>\<open>2*pos + 1\<close> at the test.
\<close>

function siftup_loop :: "Item list \<Rightarrow> nat \<Rightarrow> nat \<Rightarrow> Item list \<times> nat" where
  "siftup_loop heap endpos pos =
     (let childpos = 2 * pos + 1
      in if childpos < endpos then
           let rightpos = childpos + 1;
               childpos = (if rightpos < endpos \<and> \<not> Item_lt (heap ! childpos) (heap ! rightpos)
                           then rightpos else childpos)
           in siftup_loop (heap[pos := heap ! childpos]) endpos childpos
         else (heap, pos))"
  by pat_completeness auto
termination
  by (relation "measure (\<lambda>(heap, endpos, pos). endpos - pos)") auto

definition siftup :: "Item list \<Rightarrow> nat \<Rightarrow> Item list" where
  "siftup heap pos =
     (let endpos = length heap;
          startpos = pos;
          newitem = heap ! pos;
          (heap', pos') = siftup_loop heap endpos pos
      in siftdown (heap'[pos' := newitem]) startpos pos')"

text \<open>
  \<^verbatim>\<open>
  def heappush(heap, item):
      heap.append(item)
      _siftdown(heap, 0, len(heap)-1)

  def heappop(heap):
      lastelt = heap.pop()    # raises appropriate IndexError if heap is empty
      if heap:
          returnitem = heap[0]
          heap[0] = lastelt
          _siftup(heap, 0)
          return returnitem
      return lastelt

  def heapify(x):
      n = len(x)
      for i in reversed(range(n//2)):
          _siftup(x, i)
  \<close>
\<close>

definition heappush :: "Item list \<Rightarrow> Item \<Rightarrow> Item list" where
  "heappush heap item =
     (let heap' = heap @ [item]
      in siftdown heap' 0 (length heap' - 1))"

definition heappop :: "Item list \<Rightarrow> error + (Item \<times> Item list)" where
  "heappop heap =
     (if heap = [] then Inl IndexError
      else let lastelt = last heap;
               heap' = butlast heap
           in if heap' \<noteq> [] then
                let returnitem = heap' ! 0
                in Inr (returnitem, siftup (heap'[0 := lastelt]) 0)
              else Inr (lastelt, heap'))"

definition heapify :: "Item list \<Rightarrow> Item list" where
  "heapify x = (let n = length x in fold (\<lambda>i heap. siftup heap i) (rev [0 ..< n div 2]) x)"

declare siftdown_loop.simps [simp del] siftup_loop.simps [simp del]

section \<open>Storage: the \<open>Item\<close> table\<close>

text \<open>
  The cards live in one SQLite table,
  \<^verbatim>\<open>
  CREATE TABLE IF NOT EXISTS Item (
      recalled INT DEFAULT 0, forgot INT DEFAULT 0,
      review_time INT DEFAULT 0, trial INT DEFAULT 0,
      question VARCHAR UNIQUE, answer VARCHAR,
      history VARCHAR DEFAULT "", deck VARCHAR DEFAULT "default")
  \<close>
  modelled as the list of its rows, each with its \<^verbatim>\<open>rowid\<close>. Every statement of the
  program runs in a transaction of its own (\<^verbatim>\<open>with db:\<close>), so a function on the
  table is one atomic step; a failed transaction leaves the table as it was.
\<close>

record Row =
  row_rowid :: int
  row_recalled :: int
  row_forgot :: int
  row_review_time :: int
  row_trial :: int
  row_question :: string
  row_answer :: string
  row_history :: string
  row_deck :: string

text \<open>
  \<^verbatim>\<open>
  def load_items(db, decks):
      where_clause = 'WHERE {}'.format('OR'.join(['(deck = ?)' for _ in decks]))
      with db:
          items = list(itertools.starmap(Item, db.execute(
              'SELECT rowid, review_time, trial FROM Item {}'.format(
                  where_clause if decks else ''), decks)))
          heapq.heapify(items)
          return items
  \<close>
  The order in which SQLite returns the rows is not fixed; the model returns them in
  the order of the list, and no theorem below depends on it.
\<close>

definition select_items :: "Row list \<Rightarrow> string list \<Rightarrow> (int \<times> int \<times> int) list" where
  "select_items db decks =
     map (\<lambda>r. (row_rowid r, row_review_time r, row_trial r))
       (filter (\<lambda>r. decks = [] \<or> row_deck r \<in> set decks) db)"

definition load_items :: "Row list \<Rightarrow> string list \<Rightarrow> Item list" where
  "load_items db decks =
     (let items = map (\<lambda>(i, t, n). \<lparr>rowid = i, review_time = t, trial = n\<rparr>) (select_items db decks)
      in heapify items)"

text \<open>
  \<^verbatim>\<open>
  def update_item(item, db, success=True):
      with db:
          db.execute("""
              UPDATE Item
              SET review_time = ?, trial = ?,
                  {recalled} = {recalled} + 1,
                  history = history || {trial_success}
              WHERE rowid = ?
              """.format(recalled='recalled' if success else 'forgot',
                         trial_success='"o"' if success else '"x"'),
              (item.review_time, item.trial, item.rowid))
  \<close>
\<close>

definition update_item :: "Item \<Rightarrow> Row list \<Rightarrow> bool \<Rightarrow> Row list" where
  "update_item it db success =
     map (\<lambda>r. if row_rowid r = rowid it
              then (if success
                    then r\<lparr>row_review_time := review_time it, row_trial := trial it,
                           row_recalled := row_recalled r + 1,
                           row_history := row_history r @ ''o''\<rparr>
                    else r\<lparr>row_review_time := review_time it, row_trial := trial it,
                           row_forgot := row_forgot r + 1,
                           row_history := row_history r @ ''x''\<rparr>)
              else r) db"

text \<open>
  \<^verbatim>\<open>
  def make_review_item(item, db):
      with db:
          row = db.execute("""SELECT recalled, forgot, question, answer, history
              FROM Item WHERE rowid = ?""", (item.rowid,)).fetchone()
          return ReviewItem(item, row[0], row[1], row[2], row[3], row[4])
  \<close>
  \<^verbatim>\<open>fetchone()\<close> is \<^verbatim>\<open>None\<close> when no row has this \<^verbatim>\<open>rowid\<close>, and \<^verbatim>\<open>row[0]\<close> then
  raises \<^verbatim>\<open>TypeError\<close>.
\<close>

record ReviewItem =
  item :: Item
  recalled :: int
  forgot :: int
  question :: string
  answer :: string
  history :: string

definition make_review_item :: "Item \<Rightarrow> Row list \<Rightarrow> error + ReviewItem" where
  "make_review_item it db =
     (case find (\<lambda>r. row_rowid r = rowid it) db of
        None \<Rightarrow> Inl TypeError
      | Some row \<Rightarrow>
          Inr \<lparr>item = it, recalled = row_recalled row, forgot = row_forgot row,
               question = row_question row, answer = row_answer row,
               history = row_history row\<rparr>)"

section \<open>The console\<close>

text \<open>
  The program reads lines from standard input and prints prompts and messages. The
  state of the outside world is the list of lines still to be read, the number of
  times the clock has been read, and what has been printed so far. A printed text is
  recorded by what it shows, not by its characters: the question prompt and the answer
  prompt of a review item, the blank line after a review, and the messages of
  \<^verbatim>\<open>main\<close> and of the import. The clock is a function from the number of the reading
  to the time it returns. \<^verbatim>\<open>input()\<close> raises \<^verbatim>\<open>EOFError\<close> when no line is left.
  The text-to-speech hook (\<^verbatim>\<open>SERIOUS_TTS\<close>) is taken to be unset.

  \<^verbatim>\<open>
  def _prompt(prompt, tts_text):
      print(prompt, end='')
      if tts_program := os.environ.get('SERIOUS_TTS', ''):
          subprocess.run(tts_program, input=tts_text, text=True, shell=True)
      return input()
  \<close>
\<close>

datatype printed =
    QuestionPrompt ReviewItem
  | AnswerPrompt ReviewItem
  | BlankLine
  | NextReview int
  | NoCards
  | DuplicateQuestion string
  | Intervals "real list"

record env =
  inputs :: "string list"
  ticks :: nat
  outputs :: "printed list"

definition prompt :: "printed \<Rightarrow> env \<Rightarrow> (error + string) \<times> env" where
  "prompt p e =
     (let e' = e\<lparr>outputs := outputs e @ [p]\<rparr>
      in case inputs e' of
           [] \<Rightarrow> (Inl EOFError, e')
         | x # rest \<Rightarrow> (Inr x, e'\<lparr>inputs := rest\<rparr>))"

lemma prompt_consumes:
  "prompt p e = (Inr x, e') \<Longrightarrow> inputs e = x # inputs e'"
  by (auto simp add: prompt_def Let_def split: list.splits)

text \<open>
  \<^verbatim>\<open>
  def review(review_item):
      ...
      while True:
          x = _prompt(q_prompt, review_item.question)
          if x == 'q':
              return None
          if x != 'a':
              continue
          while True:
              y = _prompt(ans_prompt, review_item.answer)
              if y == 'r':
                  return True
              elif y == 'f':
                  return False
  \<close>
  The inner loop is \<open>answer_loop\<close>. Both loops read one line per round, so they end
  when the input does.
\<close>

function answer_loop :: "ReviewItem \<Rightarrow> env \<Rightarrow> (error + bool) \<times> env" where
  "answer_loop ri e =
     (case prompt (AnswerPrompt ri) e of
        (Inl err, e') \<Rightarrow> (Inl err, e')
      | (Inr y, e') \<Rightarrow>
          if y = ''r'' then (Inr True, e')
          else if y = ''f'' then (Inr False, e')
          else answer_loop ri e')"
  by pat_completeness auto
termination
proof (relation "measure (\<lambda>(ri, e). length (inputs e))")
  show "wf (measure (\<lambda>(ri, e). length (inputs e)))" by simp
next
  fix ri e x e' y
  assume "(x, e') = prompt (AnswerPrompt ri) e" and "x = Inr y"
  then have "inputs e = y # inputs e'"
    using prompt_consumes [of "AnswerPrompt ri" e y e'] by simp
  then show "((ri, e'), ri, e) \<in> measure (\<lambda>(ri, e). length (inputs e))" by simp
qed

function review :: "ReviewItem \<Rightarrow> env \<Rightarrow> (error + bool option) \<times> env" where
  "review ri e =
     (case prompt (QuestionPrompt ri) e of
        (Inl err, e') \<Rightarrow> (Inl err, e')
      | (Inr x, e') \<Rightarrow>
          if x = ''q'' then (Inr None, e')
          else if x \<noteq> ''a'' then review ri e'
          else (case answer_loop ri e' of
                  (Inl err, e'') \<Rightarrow> (Inl err, e'')
                | (Inr b, e'') \<Rightarrow> (Inr (Some b), e'')))"
  by pat_completeness auto
termination
proof (relation "measure (\<lambda>(ri, e). length (inputs e))")
  show "wf (measure (\<lambda>(ri, e). length (inputs e)))" by simp
next
  fix ri e x e' y
  assume "(x, e') = prompt (QuestionPrompt ri) e" and "x = Inr y"
  then have "inputs e = y # inputs e'"
    using prompt_consumes [of "QuestionPrompt ri" e y e'] by simp
  then show "((ri, e'), ri, e) \<in> measure (\<lambda>(ri, e). length (inputs e))" by simp
qed

declare answer_loop.simps [simp del] review.simps [simp del]

text \<open>
  A review that returns has read at least one line; this bounds the session loop.
\<close>

lemma answer_loop_consumes:
  "answer_loop ri e = (Inr b, e') \<Longrightarrow> length (inputs e') < length (inputs e)"
proof (induction ri e rule: answer_loop.induct)
  case (1 ri e)
  obtain r e1 where p: "prompt (AnswerPrompt ri) e = (r, e1)"
    by (cases "prompt (AnswerPrompt ri) e")
  show ?case
  proof (cases r)
    case (Inl err)
    with p "1.prems" show ?thesis by (simp add: answer_loop.simps [of ri e])
  next
    case (Inr y)
    with p have step: "inputs e = y # inputs e1"
      using prompt_consumes by simp
    show ?thesis
    proof (cases "y = ''r'' \<or> y = ''f''")
      case True
      with p Inr "1.prems" have "e' = e1"
        by (auto simp add: answer_loop.simps [of ri e])
      with step show ?thesis by simp
    next
      case False
      with p Inr "1.prems" have "answer_loop ri e1 = (Inr b, e')"
        by (simp add: answer_loop.simps [of ri e])
      from "1.IH" [OF p [symmetric] Inr _ _ this] False
      have "length (inputs e') < length (inputs e1)" by simp
      with step show ?thesis by simp
    qed
  qed
qed

lemma review_consumes:
  "review ri e = (Inr r, e') \<Longrightarrow> length (inputs e') < length (inputs e)"
proof (induction ri e rule: review.induct)
  case (1 ri e)
  obtain x e1 where p: "prompt (QuestionPrompt ri) e = (x, e1)"
    by (cases "prompt (QuestionPrompt ri) e")
  show ?case
  proof (cases x)
    case (Inl err)
    with p "1.prems" show ?thesis by (simp add: review.simps [of ri e])
  next
    case (Inr y)
    with p have step: "inputs e = y # inputs e1"
      using prompt_consumes by simp
    consider "y = ''q''" | "y \<noteq> ''q''" "y \<noteq> ''a''" | "y = ''a''" by blast
    then show ?thesis
    proof cases
      case 1
      with p Inr "1.prems" have "e' = e1"
        by (simp add: review.simps [of ri e])
      with step show ?thesis by simp
    next
      case 2
      with p Inr "1.prems" have "review ri e1 = (Inr r, e')"
        by (simp add: review.simps [of ri e])
      from "1.IH" [OF p [symmetric] Inr _ _ this] 2
      have "length (inputs e') < length (inputs e1)" by simp
      with step show ?thesis by simp
    next
      case 3
      obtain a e2 where al: "answer_loop ri e1 = (a, e2)"
        by (cases "answer_loop ri e1")
      with 3 p Inr "1.prems" obtain b where "a = Inr b" "e' = e2"
        by (auto simp add: review.simps [of ri e] split: sum.splits)
      with al have "length (inputs e') < length (inputs e1)"
        using answer_loop_consumes by simp
      with step show ?thesis by simp
    qed
  qed
qed

section \<open>The review session\<close>

text \<open>
  \<^verbatim>\<open>
  def start_review(items, db, intervals, args):
      while items and (items[0].review_time <= time.time()):
          item = heapq.heappop(items)
          if (result := review(make_review_item(item, db))) == True:
              item = add_success(item, intervals)
              update_item(item, db)
          elif result == False:
              item = add_failure(item, intervals)
              update_item(item, db, success=False)
          else:
              break
          heapq.heappush(items, item)
          print()
  \<close>
  The function returns the exception that ended the loop, if any, with the queue, the
  table and the console as the loop left them. The clock is read once at each test of
  the loop condition on a non-empty queue, and once in \<^verbatim>\<open>_update_items\<close>.
\<close>

function start_review ::
  "(nat \<Rightarrow> real) \<Rightarrow> real list \<Rightarrow> Item list \<Rightarrow> Row list \<Rightarrow> env
     \<Rightarrow> error option \<times> Item list \<times> Row list \<times> env" where
  "start_review clock intervals items db e =
     (if items = [] then (None, items, db, e)
      else
        let now = clock (ticks e);
            e1 = e\<lparr>ticks := ticks e + 1\<rparr>
        in if \<not> real_of_int (review_time (items ! 0)) \<le> now then (None, items, db, e1)
           else
             (case heappop items of
                Inl err \<Rightarrow> (Some err, items, db, e1)
              | Inr (it, items1) \<Rightarrow>
                  (case make_review_item it db of
                     Inl err \<Rightarrow> (Some err, items1, db, e1)
                   | Inr ri \<Rightarrow>
                       (case review ri e1 of
                          (Inl err, e2) \<Rightarrow> (Some err, items1, db, e2)
                        | (Inr None, e2) \<Rightarrow> (None, items1, db, e2)
                        | (Inr (Some result), e2) \<Rightarrow>
                            let now2 = clock (ticks e2);
                                e3 = e2\<lparr>ticks := ticks e2 + 1\<rparr>
                            in (case (if result then add_success now2 it intervals
                                      else add_failure now2 it intervals) of
                                  Inl err \<Rightarrow> (Some err, items1, db, e3)
                                | Inr it' \<Rightarrow>
                                    start_review clock intervals (heappush items1 it')
                                      (update_item it' db result)
                                      (e3\<lparr>outputs := outputs e3 @ [BlankLine]\<rparr>))))))"
  by pat_completeness auto
termination
  by (relation "measure (\<lambda>(clock, intervals, items, db, e). length (inputs e))")
    (auto dest!: review_consumes [OF sym])

declare start_review.simps [simp del]

section \<open>Importing cards\<close>

text \<open>
  \<^verbatim>\<open>
  def _insert_into_item(db, batch):
      with db:
          db.executemany(
              'INSERT INTO Item (question, answer, deck) VALUES (?, ?, ?)', (batch))
  \<close>
  A new row takes the next \<^verbatim>\<open>rowid\<close> and the defaults of the table. A row whose
  question is already in the table violates \<^verbatim>\<open>UNIQUE\<close> (\<^verbatim>\<open>IntegrityError\<close>), and
  one that does not bind exactly three values raises \<^verbatim>\<open>ProgrammingError\<close>; either
  way the transaction is rolled back and the table is as before the batch.
\<close>

definition new_row :: "Row list \<Rightarrow> string \<Rightarrow> string \<Rightarrow> string \<Rightarrow> Row" where
  "new_row db q a d =
     \<lparr>row_rowid = (if db = [] then 1 else Max (set (map row_rowid db)) + 1),
      row_recalled = 0, row_forgot = 0, row_review_time = 0, row_trial = 0,
      row_question = q, row_answer = a, row_history = [], row_deck = d\<rparr>"

fun executemany_insert :: "Row list \<Rightarrow> string list list \<Rightarrow> error + Row list" where
  "executemany_insert db [] = Inr db"
| "executemany_insert db (params # rest) =
     (case params of
        [q, a, d] \<Rightarrow>
          if q \<in> set (map row_question db) then Inl IntegrityError
          else executemany_insert (db @ [new_row db q a d]) rest
      | _ \<Rightarrow> Inl ProgrammingError)"

definition insert_into_item :: "Row list \<Rightarrow> string list list \<Rightarrow> error option \<times> Row list" where
  "insert_into_item db batch =
     (case executemany_insert db batch of
        Inl err \<Rightarrow> (Some err, db)
      | Inr db' \<Rightarrow> (None, db'))"

text \<open>
  \<^verbatim>\<open>
  def add_items(db, deck, csv_rows, batch_size=1000):
      batch = []
      for row in csv_rows:
          batch.append(row + [deck])
          if len(batch) >= batch_size:
              _insert_into_item(db, batch)
              batch = []
      if batch:
          _insert_into_item(db, batch)
          batch = []

  def add_items_from_files(db, args):
      for csv_filename in args.filenames:
          try:
              with open(csv_filename) as fis:
                  add_items(db, args.deck, csv.reader(fis, delimiter=args.delimiter))
          except sqlite3.IntegrityError:
              print(f'Duplicate question in file `{csv_filename}`')
  \<close>
  A file is given by its parsed rows; a name with no file raises
  \<^verbatim>\<open>FileNotFoundError\<close>.
\<close>

fun add_items_loop ::
  "Row list \<Rightarrow> string \<Rightarrow> string list list \<Rightarrow> nat \<Rightarrow> string list list
     \<Rightarrow> error option \<times> Row list" where
  "add_items_loop db dk [] batch_size batch =
     (if batch \<noteq> [] then insert_into_item db batch else (None, db))"
| "add_items_loop db dk (row # csv_rows) batch_size batch =
     (let batch = batch @ [row @ [dk]]
      in if length batch \<ge> batch_size then
           (case insert_into_item db batch of
              (Some err, db') \<Rightarrow> (Some err, db')
            | (None, db') \<Rightarrow> add_items_loop db' dk csv_rows batch_size [])
         else add_items_loop db dk csv_rows batch_size batch)"

definition add_items :: "Row list \<Rightarrow> string \<Rightarrow> string list list \<Rightarrow> nat \<Rightarrow> error option \<times> Row list" where
  "add_items db dk csv_rows batch_size = add_items_loop db dk csv_rows batch_size []"

fun add_items_from_files ::
  "(string \<Rightarrow> string list list option) \<Rightarrow> Row list \<Rightarrow> string \<Rightarrow> string list \<Rightarrow> env
     \<Rightarrow> error option \<times> Row list \<times> env" where
  "add_items_from_files files db dk [] e = (None, db, e)"
| "add_items_from_files files db dk (csv_filename # rest) e =
     (case files csv_filename of
        None \<Rightarrow> (Some FileNotFoundError, db, e)
      | Some csv_rows \<Rightarrow>
          (case add_items db dk csv_rows 1000 of
             (None, db') \<Rightarrow> add_items_from_files files db' dk rest e
           | (Some err, db') \<Rightarrow>
               if err = IntegrityError
               then add_items_from_files files db' dk rest
                      (e\<lparr>outputs := outputs e @ [DuplicateQuestion csv_filename]\<rparr>)
               else (Some err, db', e)))"

section \<open>The program entry\<close>

text \<open>
  \<^verbatim>\<open>
  def main():
      ...
      intervals = compute_intervals(args.reviews_param, args.hours_param)
      if args.show_intervals:
          print(intervals)
          return
      if 'filenames' in vars(args):
          add_items_from_files(db, args)
          return
      if items := load_items(db, args.decks):
          start_review(items, db, intervals, args)
          print('Next review scheduled for {}.'.format(time.ctime(items[0].review_time)))
      else:
          print(f'No cards scheduled for review.  Use the `add` sub-command to add some.')
  \<close>
  The parsed command line is the record \<open>args\<close>; \<open>filenames\<close> is present only for
  the \<^verbatim>\<open>add\<close> subcommand.
\<close>

record args =
  decks :: "string list"
  show_intervals :: bool
  reviews_param :: int
  hours_param :: int
  filenames :: "string list option"
  deck :: string

definition main ::
  "args \<Rightarrow> (string \<Rightarrow> string list list option) \<Rightarrow> (nat \<Rightarrow> real) \<Rightarrow> Row list \<Rightarrow> env
     \<Rightarrow> error option \<times> Row list \<times> env" where
  "main ar files clock db e =
     (case compute_intervals (reviews_param ar) (hours_param ar) of
        Inl err \<Rightarrow> (Some err, db, e)
      | Inr intervals \<Rightarrow>
          if show_intervals ar then (None, db, e\<lparr>outputs := outputs e @ [Intervals intervals]\<rparr>)
          else
            (case filenames ar of
               Some names \<Rightarrow> add_items_from_files files db (deck ar) names e
             | None \<Rightarrow>
                 (let items = load_items db (decks ar)
                  in if items \<noteq> [] then
                       (case start_review clock intervals items db e of
                          (Some err, items', db', e') \<Rightarrow> (Some err, db', e')
                        | (None, items', db', e') \<Rightarrow>
                            (case py_getitem items' 0 of
                               Inl err \<Rightarrow> (Some err, db', e')
                             | Inr first \<Rightarrow>
                                 (None, db', e'\<lparr>outputs := outputs e' @ [NextReview (review_time first)]\<rparr>)))
                     else (None, db, e\<lparr>outputs := outputs e @ [NoCards]\<rparr>))))"

chapter \<open>Notions used to state the properties\<close>

section \<open>Runs of outcomes\<close>


section \<open>Heaps\<close>

text \<open>
  The heap invariant of \<^verbatim>\<open>heapq\<close>: no element is smaller than its parent, which for
  \<^verbatim>\<open>Item.__lt__\<close> says that no item is due before its parent.
\<close>

definition heap_inv :: "Item list \<Rightarrow> bool" where
  "heap_inv heap = (\<forall>i \<in> {1 ..< length heap}. \<not> Item_lt (heap ! i) (heap ! ((i - 1) div 2)))"

subsection \<open>Invariants of the sifting loops\<close>

text \<open>
  \<open>hp k v\<close>: every element whose parent sits at position \<open>k\<close> or later is not due
  before its parent. \<open>hp_dn k p v\<close> allows the element at \<open>p\<close> to be due before its
  parent, and \<open>hp_up k p v\<close> allows it to be due after its children as well; both ask
  that the children of \<open>p\<close> are not due before the parent of \<open>p\<close>. The loops move a
  hole through the list; the invariants are stated for the list with \<^verbatim>\<open>newitem\<close>
  written into the hole.
\<close>

definition hp :: "nat \<Rightarrow> Item list \<Rightarrow> bool" where
  "hp k v = (\<forall>i. 0 < i \<and> i < length v \<and> k \<le> (i - 1) div 2 \<longrightarrow>
               review_time (v ! ((i - 1) div 2)) \<le> review_time (v ! i))"

definition hp_dn :: "nat \<Rightarrow> nat \<Rightarrow> Item list \<Rightarrow> bool" where
  "hp_dn k p v =
     ((\<forall>i. 0 < i \<and> i < length v \<and> k \<le> (i - 1) div 2 \<and> i \<noteq> p \<longrightarrow>
            review_time (v ! ((i - 1) div 2)) \<le> review_time (v ! i))
    \<and> (\<forall>i. 0 < i \<and> i < length v \<and> (i - 1) div 2 = p \<and> 0 < p \<and> k \<le> (p - 1) div 2 \<longrightarrow>
            review_time (v ! ((p - 1) div 2)) \<le> review_time (v ! i)))"

definition hp_up :: "nat \<Rightarrow> nat \<Rightarrow> Item list \<Rightarrow> bool" where
  "hp_up k p v =
     ((\<forall>i. 0 < i \<and> i < length v \<and> k \<le> (i - 1) div 2 \<and> i \<noteq> p \<and> (i - 1) div 2 \<noteq> p \<longrightarrow>
            review_time (v ! ((i - 1) div 2)) \<le> review_time (v ! i))
    \<and> (\<forall>i. 0 < i \<and> i < length v \<and> (i - 1) div 2 = p \<and> 0 < p \<and> k \<le> (p - 1) div 2 \<longrightarrow>
            review_time (v ! ((p - 1) div 2)) \<le> review_time (v ! i)))"

text \<open>\<open>below k p\<close>: position \<open>p\<close> lies in the subtree rooted at position \<open>k\<close>.\<close>

inductive below :: "nat \<Rightarrow> nat \<Rightarrow> bool" for k :: nat where
  below_refl: "below k k"
| below_left: "below k p \<Longrightarrow> below k (2 * p + 1)"
| below_right: "below k p \<Longrightarrow> below k (2 * p + 2)"

subsection \<open>Emptying a queue\<close>

text \<open>
  The sifting functions keep the length of the list, so a pop shortens it by one.
\<close>

lemma siftdown_loop_length:
  "siftdown_loop heap newitem k pos = (heap', pos') \<Longrightarrow> length heap' = length heap"
proof (induction heap newitem k pos rule: siftdown_loop.induct)
  case (1 heap newitem k pos)
  show ?case
  proof (cases "k < pos \<and> Item_lt newitem (heap ! ((pos - 1) div 2))")
    case True
    then have "siftdown_loop (heap[pos := heap ! ((pos - 1) div 2)]) newitem k ((pos - 1) div 2)
                 = (heap', pos')"
      using "1.prems" by (simp add: siftdown_loop.simps [of heap] Let_def)
    from "1.IH" [OF _ refl refl _ this] True show ?thesis by simp
  next
    case False
    then show ?thesis
      using "1.prems" by (auto simp add: siftdown_loop.simps [of heap] Let_def split: if_splits)
  qed
qed

lemma siftdown_length: "length (siftdown heap k pos) = length heap"
proof -
  obtain heap' pos' where loop: "siftdown_loop heap (heap ! pos) k pos = (heap', pos')"
    by (cases "siftdown_loop heap (heap ! pos) k pos")
  then show ?thesis
    using siftdown_loop_length [OF loop] by (simp add: siftdown_def)
qed

lemma siftup_loop_length:
  "siftup_loop heap endpos pos = (heap', pos') \<Longrightarrow> length heap' = length heap"
proof (induction heap endpos pos rule: siftup_loop.induct)
  case (1 heap endpos pos)
  show ?case
  proof (cases "2 * pos + 1 < endpos")
    case True
    define c where "c = (if 2 * pos + 1 + 1 < endpos
        \<and> \<not> Item_lt (heap ! (2 * pos + 1)) (heap ! (2 * pos + 1 + 1))
      then 2 * pos + 1 + 1 else 2 * pos + 1)"
    have "siftup_loop (heap[pos := heap ! c]) endpos c = (heap', pos')"
      using "1.prems" True by (auto simp add: siftup_loop.simps [of heap] c_def Let_def)
    from "1.IH" [OF refl True refl refl this [unfolded c_def]] show ?thesis by simp
  next
    case False
    then show ?thesis
      using "1.prems" by (auto simp add: siftup_loop.simps [of heap] Let_def)
  qed
qed

lemma siftup_length: "length (siftup heap pos) = length heap"
proof -
  obtain heap' pos' where loop: "siftup_loop heap (length heap) pos = (heap', pos')"
    by (cases "siftup_loop heap (length heap) pos")
  then show ?thesis
    using siftup_loop_length [OF loop] by (simp add: siftup_def siftdown_length)
qed

lemma heappop_length:
  "heappop heap = Inr (it, heap') \<Longrightarrow> Suc (length heap') = length heap"
proof (cases "butlast heap = []")
  case True
  then have "length heap - 1 = 0"
    using length_butlast [of heap] by simp
  moreover assume "heappop heap = Inr (it, heap')"
  ultimately show ?thesis
    using True by (cases heap) (auto simp add: heappop_def Let_def split: if_splits)
next
  case False
  then have "length (butlast heap) = length heap - 1" "heap \<noteq> []"
    by auto
  moreover assume "heappop heap = Inr (it, heap')"
  ultimately show ?thesis
    using False by (auto simp add: heappop_def Let_def siftup_length split: if_splits)
qed

text \<open>Popping until the list is empty, \<^verbatim>\<open>while heap: out.append(heappop(heap))\<close>.\<close>

function pop_all :: "Item list \<Rightarrow> Item list" where
  "pop_all heap =
     (if heap = [] then []
      else case heappop heap of
             Inl e \<Rightarrow> []
           | Inr (it, heap') \<Rightarrow> it # pop_all heap')"
  by pat_completeness auto
termination
proof (relation "measure length")
  show "wf (measure length)" by simp
next
  fix heap :: "Item list" and x2 x y
  assume "heappop heap = Inr x2" and "(x, y) = x2"
  then have "Suc (length y) = length heap"
    using heappop_length [of heap x y] by simp
  then show "(y, heap) \<in> measure length" by simp
qed

declare pop_all.simps [simp del]

chapter \<open>Properties\<close>

section \<open>Properties of the trial transitions\<close>














section \<open>The interval table over the reals\<close>

text \<open>
  With \<open>exp\<close> and \<open>ln\<close> the functions on the reals, the table for \<open>trials \<ge> 1\<close> and
  \<open>hours \<ge> 1\<close> has \<open>trials + 1\<close> entries, starts at 0, ends at \<open>hours * 3600\<close> and is
  strictly increasing. The program computes the entries in double precision, where
  these equations hold up to rounding only.
\<close>

lemma compute_intervals_ideal:
  assumes "1 \<le> trials" and "1 \<le> hours"
  shows "\<exists>tbl. compute_intervals trials hours = Inr tbl
             \<and> length tbl = nat trials + 1
             \<and> (\<forall>n \<le> nat trials. tbl ! n =
                   (exp (real n * (ln (real_of_int hours + 1) / real_of_int trials)) - 1) * 3600)
             \<and> tbl ! 0 = 0
             \<and> tbl ! nat trials = real_of_int hours * 3600
             \<and> sorted_wrt (<) tbl"
proof -
  define c where "c = ln (real_of_int (hours + 1)) / real_of_int trials"
  define tbl where "tbl = map (\<lambda>n. (exp (real n * c) - 1) * 60 * 60) [0 ..< nat (trials + 1)]"
  have eq: "compute_intervals trials hours = Inr tbl"
    using assms by (simp add: compute_intervals_def c_def tbl_def Let_def)
  have len: "length tbl = nat trials + 1"
    using assms by (simp add: tbl_def nat_add_distrib)
  have nth: "tbl ! n = (exp (real n * c) - 1) * 3600" if "n \<le> nat trials" for n
  proof -
    have "n < length [0 ..< nat (trials + 1)]"
      using that assms by (simp add: nat_add_distrib)
    then have "tbl ! n = (exp (real ([0 ..< nat (trials + 1)] ! n) * c) - 1) * 60 * 60"
      unfolding tbl_def by (rule nth_map)
    moreover have "[0 ..< nat (trials + 1)] ! n = n"
      using that assms nth_upt [of 0 n "nat (trials + 1)"] by (simp add: nat_add_distrib)
    ultimately show ?thesis by simp
  qed
  have cpos: "0 < c"
    using assms by (simp add: c_def)
  have "real (nat trials) * c = ln (real_of_int (hours + 1))"
    using assms by (simp add: c_def)
  then have "exp (real (nat trials) * c) = real_of_int (hours + 1)"
    using assms by simp
  then have last: "tbl ! nat trials = real_of_int hours * 3600"
    using nth [of "nat trials"] by simp
  have first: "tbl ! 0 = 0"
    using nth [of 0] by simp
  have "sorted_wrt (<) tbl"
    unfolding sorted_wrt_iff_nth_less
  proof (intro allI impI)
    fix i j assume ij: "i < j" "j < length tbl"
    then have "real i * c < real j * c"
      using cpos by simp
    then have "(exp (real i * c) - 1) * 3600 < (exp (real j * c) - 1) * 3600"
      by simp
    then show "tbl ! i < tbl ! j"
      using nth [of i] nth [of j] ij len by simp
  qed
  moreover have "c = ln (real_of_int hours + 1) / real_of_int trials"
    by (simp add: c_def)
  ultimately show ?thesis
    using eq len nth first last by blast
qed

section \<open>Correctness of the heap operations\<close>

lemma below_ge: "below k p \<Longrightarrow> k \<le> p"
  by (induction rule: below.induct) auto

lemma below_parent: "below k p \<Longrightarrow> p \<noteq> k \<Longrightarrow> below k ((p - 1) div 2)"
  by (cases rule: below.cases) auto

lemma below_parent_ge: "below k p \<Longrightarrow> k < p \<Longrightarrow> k \<le> (p - 1) div 2"
  using below_ge below_parent by (metis less_not_refl)

lemma hp_up_start: "hp (Suc k) v \<Longrightarrow> hp_up k k v"
  unfolding hp_def hp_up_def
proof (intro conjI allI impI)
  fix i
  assume h: "\<forall>i. 0 < i \<and> i < length v \<and> Suc k \<le> (i - 1) div 2 \<longrightarrow>
               review_time (v ! ((i - 1) div 2)) \<le> review_time (v ! i)"
    and i: "0 < i \<and> i < length v \<and> k \<le> (i - 1) div 2 \<and> i \<noteq> k \<and> (i - 1) div 2 \<noteq> k"
  then have "Suc k \<le> (i - 1) div 2" by linarith
  with h i show "review_time (v ! ((i - 1) div 2)) \<le> review_time (v ! i)" by blast
next
  fix i
  assume "0 < i \<and> i < length v \<and> (i - 1) div 2 = k \<and> 0 < k \<and> k \<le> (k - 1) div 2"
  then have False by linarith
  then show "review_time (v ! ((k - 1) div 2)) \<le> review_time (v ! i)" ..
qed

lemma hp_up_leaf: "hp_up k p v \<Longrightarrow> length v \<le> 2 * p + 1 \<Longrightarrow> hp_dn k p v"
  unfolding hp_up_def hp_dn_def
proof (intro conjI allI impI)
  fix i
  assume h: "(\<forall>i. 0 < i \<and> i < length v \<and> k \<le> (i - 1) div 2 \<and> i \<noteq> p \<and> (i - 1) div 2 \<noteq> p \<longrightarrow>
            review_time (v ! ((i - 1) div 2)) \<le> review_time (v ! i))
    \<and> (\<forall>i. 0 < i \<and> i < length v \<and> (i - 1) div 2 = p \<and> 0 < p \<and> k \<le> (p - 1) div 2 \<longrightarrow>
            review_time (v ! ((p - 1) div 2)) \<le> review_time (v ! i))"
    and leaf: "length v \<le> 2 * p + 1"
    and i: "0 < i \<and> i < length v \<and> k \<le> (i - 1) div 2 \<and> i \<noteq> p"
  then have "(i - 1) div 2 \<noteq> p" by linarith
  with h i show "review_time (v ! ((i - 1) div 2)) \<le> review_time (v ! i)" by blast
next
  fix i
  assume h: "(\<forall>i. 0 < i \<and> i < length v \<and> k \<le> (i - 1) div 2 \<and> i \<noteq> p \<and> (i - 1) div 2 \<noteq> p \<longrightarrow>
            review_time (v ! ((i - 1) div 2)) \<le> review_time (v ! i))
    \<and> (\<forall>i. 0 < i \<and> i < length v \<and> (i - 1) div 2 = p \<and> 0 < p \<and> k \<le> (p - 1) div 2 \<longrightarrow>
            review_time (v ! ((p - 1) div 2)) \<le> review_time (v ! i))"
    and "0 < i \<and> i < length v \<and> (i - 1) div 2 = p \<and> 0 < p \<and> k \<le> (p - 1) div 2"
  then show "review_time (v ! ((p - 1) div 2)) \<le> review_time (v ! i)" by blast
qed

lemma hp_dn_done:
  assumes "hp_dn k p v"
    and "p \<le> k \<or> review_time (v ! ((p - 1) div 2)) \<le> review_time (v ! p)"
  shows "hp k v"
  unfolding hp_def
proof (intro allI impI)
  fix i
  assume i: "0 < i \<and> i < length v \<and> k \<le> (i - 1) div 2"
  show "review_time (v ! ((i - 1) div 2)) \<le> review_time (v ! i)"
  proof (cases "i = p")
    case True
    with i have "\<not> p \<le> k" by linarith
    with assms(2) True show ?thesis by simp
  next
    case False
    with assms(1) i show ?thesis unfolding hp_dn_def by blast
  qed
qed

lemma hp_dn_swap:
  assumes inv: "hp_dn k p v"
    and p: "0 < p" "p < length v" "k \<le> (p - 1) div 2"
    and lt: "review_time (v ! p) < review_time (v ! ((p - 1) div 2))"
  shows "hp_dn k ((p - 1) div 2) (v[p := v ! ((p - 1) div 2), (p - 1) div 2 := v ! p])"
proof -
  define q where "q = (p - 1) div 2"
  define w where "w = v[p := v ! q, q := v ! p]"
  have qp: "q < p" using p(1) by (simp add: q_def)
  have edge: "review_time (v ! ((i - 1) div 2)) \<le> review_time (v ! i)"
    if "0 < i" "i < length v" "k \<le> (i - 1) div 2" "i \<noteq> p" for i
    using inv that unfolding hp_dn_def by blast
  have grand: "review_time (v ! q) \<le> review_time (v ! i)"
    if "0 < i" "i < length v" "(i - 1) div 2 = p" for i
    using inv that p unfolding hp_dn_def q_def by blast
  have w_q: "w ! q = v ! p" using qp p(2) by (simp add: w_def)
  have w_p: "w ! p = v ! q" using qp p(2) by (simp add: w_def)
  have w_other: "w ! i = v ! i" if "i \<noteq> p" "i \<noteq> q" for i
    using that by (simp add: w_def)
  have len: "length w = length v" by (simp add: w_def)
  have A: "review_time (w ! ((i - 1) div 2)) \<le> review_time (w ! i)"
    if i: "0 < i" "i < length w" "k \<le> (i - 1) div 2" "i \<noteq> q" for i
  proof -
    consider "i = p" | "i \<noteq> p" "(i - 1) div 2 = q" | "(i - 1) div 2 = p"
      | "i \<noteq> p" "(i - 1) div 2 \<noteq> q" "(i - 1) div 2 \<noteq> p" by blast
    then show ?thesis
    proof cases
      case 1
      then show ?thesis using w_q w_p lt by (simp add: q_def)
    next
      case 2
      have "review_time (v ! q) \<le> review_time (v ! i)"
        using edge [of i] i 2 len by simp
      moreover have "w ! i = v ! i" using w_other 2 i by simp
      ultimately show ?thesis using 2 w_q lt by (simp add: q_def)
    next
      case 3
      then have "i \<noteq> p" "i \<noteq> q" using i(1) qp by linarith+
      then have "w ! i = v ! i" by (rule w_other)
      moreover have "review_time (v ! q) \<le> review_time (v ! i)"
        using grand [of i] i 3 len by simp
      ultimately show ?thesis using 3 w_p by simp
    next
      case 4
      then have "w ! i = v ! i" "w ! ((i - 1) div 2) = v ! ((i - 1) div 2)"
        using w_other i by simp_all
      then show ?thesis using edge [of i] i 4 len by simp
    qed
  qed
  have B: "review_time (w ! ((q - 1) div 2)) \<le> review_time (w ! i)"
    if i: "0 < i" "i < length w" "(i - 1) div 2 = q" "0 < q" "k \<le> (q - 1) div 2" for i
  proof -
    have "(q - 1) div 2 < q" using i(4) by simp
    then have "w ! ((q - 1) div 2) = v ! ((q - 1) div 2)"
      using w_other qp by simp
    moreover have up: "review_time (v ! ((q - 1) div 2)) \<le> review_time (v ! q)"
      using edge [of q] i qp p(2) by simp
    moreover have "review_time (v ! q) \<le> review_time (w ! i)"
    proof (cases "i = p")
      case True
      then show ?thesis using w_p by simp
    next
      case False
      have "i \<noteq> q" using i(1,3) by linarith
      then have "w ! i = v ! i" using False w_other by simp
      moreover have "k \<le> (i - 1) div 2" using i by linarith
      ultimately show ?thesis using edge [of i] i False len by simp
    qed
    ultimately show ?thesis by simp
  qed
  show ?thesis
    unfolding hp_dn_def q_def [symmetric] w_def [symmetric]
    using A B by blast
qed

lemma hp_up_swap:
  assumes inv: "hp_up k p v"
    and c: "c < length v" "(c - 1) div 2 = p" "0 < c" "k \<le> p"
    and cmin: "\<And>i. 0 < i \<Longrightarrow> i < length v \<Longrightarrow> (i - 1) div 2 = p \<Longrightarrow>
                 review_time (v ! c) \<le> review_time (v ! i)"
  shows "hp_up k c (v[p := v ! c, c := v ! p])"
proof -
  define w where "w = v[p := v ! c, c := v ! p]"
  have pc: "p < c" using c(2,3) by linarith
  have edge: "review_time (v ! ((i - 1) div 2)) \<le> review_time (v ! i)"
    if "0 < i" "i < length v" "k \<le> (i - 1) div 2" "i \<noteq> p" "(i - 1) div 2 \<noteq> p" for i
    using inv that unfolding hp_up_def by blast
  have grand: "review_time (v ! ((p - 1) div 2)) \<le> review_time (v ! i)"
    if "0 < i" "i < length v" "(i - 1) div 2 = p" "0 < p" "k \<le> (p - 1) div 2" for i
    using inv that unfolding hp_up_def by blast
  have w_c: "w ! c = v ! p" using c(1) by (simp add: w_def)
  have w_p: "w ! p = v ! c" using pc c(1) by (simp add: w_def)
  have w_other: "w ! i = v ! i" if "i \<noteq> p" "i \<noteq> c" for i
    using that by (simp add: w_def)
  have len: "length w = length v" by (simp add: w_def)
  have A: "review_time (w ! ((i - 1) div 2)) \<le> review_time (w ! i)"
    if i: "0 < i" "i < length w" "k \<le> (i - 1) div 2" "i \<noteq> c" "(i - 1) div 2 \<noteq> c" for i
  proof -
    consider "i = p" | "i \<noteq> p" "(i - 1) div 2 = p"
      | "i \<noteq> p" "(i - 1) div 2 \<noteq> p" by blast
    then show ?thesis
    proof cases
      case 1
      have "(p - 1) div 2 < p" using i(1) 1 by simp
      then have "w ! ((p - 1) div 2) = v ! ((p - 1) div 2)"
        using w_other pc by simp
      moreover have "review_time (v ! ((p - 1) div 2)) \<le> review_time (v ! c)"
        using grand [of c] c i 1 by simp
      ultimately show ?thesis using 1 w_p by simp
    next
      case 2
      then have "w ! i = v ! i" using w_other i by simp
      then show ?thesis using cmin [of i] i 2 w_p len by simp
    next
      case 3
      then have "w ! i = v ! i" "w ! ((i - 1) div 2) = v ! ((i - 1) div 2)"
        using w_other i by simp_all
      then show ?thesis using edge [of i] i 3 len by simp
    qed
  qed
  have B: "review_time (w ! ((c - 1) div 2)) \<le> review_time (w ! i)"
    if i: "0 < i" "i < length w" "(i - 1) div 2 = c" for i
  proof -
    have ic: "c < i" using i(1,3) by linarith
    then have "w ! i = v ! i" using w_other pc by simp
    moreover have "review_time (v ! c) \<le> review_time (v ! i)"
      using edge [of i] i ic pc c(4) len by simp
    ultimately show ?thesis using c(2) w_p by simp
  qed
  show ?thesis
    unfolding hp_up_def w_def [symmetric]
    using A B by blast
qed

lemma siftdown_loop_correct:
  assumes "siftdown_loop heap newitem k pos = (heap', pos')"
    and "pos < length heap" and "below k pos"
    and "hp_dn k pos (heap[pos := newitem])"
  shows "length heap' = length heap \<and> pos' < length heap
       \<and> mset (heap'[pos' := newitem]) = mset (heap[pos := newitem])
       \<and> hp k (heap'[pos' := newitem])"
  using assms
proof (induction heap newitem k pos rule: siftdown_loop.induct)
  case (1 heap newitem k pos)
  define q where "q = (pos - 1) div 2"
  define v where "v = heap[pos := newitem]"
  have v_pos: "v ! pos = newitem" using "1.prems"(2) by (simp add: v_def)
  show ?case
  proof (cases "k < pos \<and> Item_lt newitem (heap ! q)")
    case True
    then have qpos: "q < pos" unfolding q_def by arith
    have kq: "k \<le> q" using below_parent_ge [OF "1.prems"(3)] True by (simp add: q_def)
    have v_q: "v ! q = heap ! q" using qpos by (simp add: v_def)
    have rec: "siftdown_loop (heap[pos := heap ! q]) newitem k q = (heap', pos')"
      using "1.prems"(1) True by (simp add: siftdown_loop.simps [of heap] q_def Let_def)
    have virt: "(heap[pos := heap ! q])[q := newitem] = v[pos := v ! q, q := v ! pos]"
      using v_q v_pos by (simp add: v_def)
    have "hp_dn k ((pos - 1) div 2) (v[pos := v ! ((pos - 1) div 2), (pos - 1) div 2 := v ! pos])"
    proof (rule hp_dn_swap)
      show "hp_dn k pos v" using "1.prems"(4) by (simp add: v_def)
      show "0 < pos" using True by simp
      show "pos < length v" using "1.prems"(2) by (simp add: v_def)
      show "k \<le> (pos - 1) div 2" using kq by (simp add: q_def)
      show "review_time (v ! pos) < review_time (v ! ((pos - 1) div 2))"
        using True v_q v_pos by (simp add: Item_lt_def q_def)
    qed
    then have inv': "hp_dn k q ((heap[pos := heap ! q])[q := newitem])"
      using virt by (simp add: q_def)
    have below': "below k q"
      using below_parent [OF "1.prems"(3)] True by (simp add: q_def)
    have len': "q < length (heap[pos := heap ! q])"
      using qpos "1.prems"(2) by simp
    have IH: "length heap' = length (heap[pos := heap ! q]) \<and> pos' < length (heap[pos := heap ! q])
       \<and> mset (heap'[pos' := newitem]) = mset ((heap[pos := heap ! q])[q := newitem])
       \<and> hp k (heap'[pos' := newitem])"
      using "1.IH" [OF _ refl refl _ rec [unfolded q_def] len' [unfolded q_def]
          below' [unfolded q_def] inv' [unfolded q_def]] True
      by (simp add: q_def)
    have "mset (v[pos := v ! q, q := v ! pos]) = mset v"
      using qpos "1.prems"(2) by (intro mset_swap) (simp_all add: v_def)
    with IH virt show ?thesis by (simp add: v_def)
  next
    case False
    then have ret: "heap' = heap" "pos' = pos"
      using "1.prems"(1) by (auto simp add: siftdown_loop.simps [of heap] q_def Let_def split: if_splits)
    have "pos \<le> k \<or> review_time (v ! ((pos - 1) div 2)) \<le> review_time (v ! pos)"
    proof (cases "k < pos")
      case True
      then have "q < pos" by (simp add: q_def)
      then have "v ! q = heap ! q" by (simp add: v_def)
      then show ?thesis using False True v_pos by (simp add: Item_lt_def q_def)
    next
      case False
      then show ?thesis by simp
    qed
    then have "hp k v"
      using hp_dn_done [of k pos v] "1.prems"(4) by (simp add: v_def)
    then show ?thesis using ret "1.prems"(2) by (simp add: v_def)
  qed
qed

lemma siftdown_correct:
  assumes "pos < length v" and "below k pos" and "hp_dn k pos v"
  shows "hp k (siftdown v k pos) \<and> mset (siftdown v k pos) = mset v
       \<and> length (siftdown v k pos) = length v"
proof -
  obtain heap' pos' where loop: "siftdown_loop v (v ! pos) k pos = (heap', pos')"
    by (cases "siftdown_loop v (v ! pos) k pos")
  have "hp_dn k pos (v[pos := v ! pos])" using assms(3) by simp
  from siftdown_loop_correct [OF loop assms(1,2) this]
  have "hp k (heap'[pos' := v ! pos])" "mset (heap'[pos' := v ! pos]) = mset v"
    "length heap' = length v"
    by simp_all
  then show ?thesis using loop by (simp add: siftdown_def)
qed

lemma siftup_loop_correct:
  assumes "siftup_loop heap endpos pos = (heap', pos')"
    and "endpos = length heap" and "pos < length heap" and "below k pos"
    and "hp_up k pos (heap[pos := newitem])"
  shows "length heap' = length heap \<and> pos' < length heap \<and> below k pos'
       \<and> mset (heap'[pos' := newitem]) = mset (heap[pos := newitem])
       \<and> hp_dn k pos' (heap'[pos' := newitem])"
  using assms
proof (induction heap endpos pos rule: siftup_loop.induct)
  case (1 heap endpos pos)
  define v where "v = heap[pos := newitem]"
  define l where "l = 2 * pos + 1"
  define c where "c = (if l + 1 < endpos \<and> \<not> Item_lt (heap ! l) (heap ! (l + 1)) then l + 1 else l)"
  have v_pos: "v ! pos = newitem" using "1.prems"(3) by (simp add: v_def)
  show ?case
  proof (cases "l < endpos")
    case True
    have c_cases: "c = 2 * pos + 1 \<or> c = 2 * pos + 2" by (auto simp add: c_def l_def)
    have c_len: "c < length heap" using True "1.prems"(2) by (auto simp add: c_def)
    have posc: "pos < c" using c_cases by linarith
    have par_c: "(c - 1) div 2 = pos" using c_cases by auto
    have v_c: "v ! c = heap ! c" using posc by (simp add: v_def)
    have rec: "siftup_loop (heap[pos := heap ! c]) endpos c = (heap', pos')"
      using "1.prems"(1) True by (auto simp add: siftup_loop.simps [of heap] c_def l_def Let_def)
    have virt: "(heap[pos := heap ! c])[c := newitem] = v[pos := v ! c, c := v ! pos]"
      using v_c v_pos by (simp add: v_def)
    have cmin: "review_time (v ! c) \<le> review_time (v ! i)"
      if i: "0 < i" "i < length v" "(i - 1) div 2 = pos" for i
    proof -
      have "i = l \<or> i = l + 1" using i by (auto simp add: l_def)
      moreover have "v ! l = heap ! l" "v ! (l + 1) = heap ! (l + 1)"
        by (simp_all add: v_def l_def)
      moreover have "length v = endpos" using "1.prems"(2) by (simp add: v_def)
      ultimately show ?thesis
        using i(2) v_c by (auto simp add: c_def Item_lt_def)
    qed
    have "hp_up k c (v[pos := v ! c, c := v ! pos])"
    proof (rule hp_up_swap)
      show "hp_up k pos v" using "1.prems"(5) by (simp add: v_def)
      show "c < length v" using c_len by (simp add: v_def)
      show "(c - 1) div 2 = pos" by (rule par_c)
      show "0 < c" using posc by simp
      show "k \<le> pos" using "1.prems"(4) by (rule below_ge)
      show "\<And>i. 0 < i \<Longrightarrow> i < length v \<Longrightarrow> (i - 1) div 2 = pos \<Longrightarrow>
                 review_time (v ! c) \<le> review_time (v ! i)"
        by (rule cmin)
    qed
    then have inv': "hp_up k c ((heap[pos := heap ! c])[c := newitem])"
      using virt by simp
    have below': "below k c"
      using c_cases "1.prems"(4) below_left below_right by auto
    have IH: "length heap' = length (heap[pos := heap ! c]) \<and> pos' < length (heap[pos := heap ! c])
       \<and> below k pos'
       \<and> mset (heap'[pos' := newitem]) = mset ((heap[pos := heap ! c])[c := newitem])
       \<and> hp_dn k pos' (heap'[pos' := newitem])"
      using "1.IH" [OF refl _ refl refl rec [unfolded c_def l_def] _ _
          below' [unfolded c_def l_def] inv' [unfolded c_def l_def]] True c_len "1.prems"(2)
      by (simp add: c_def l_def)
    have "mset (v[pos := v ! c, c := v ! pos]) = mset v"
      using c_len "1.prems"(3) by (intro mset_swap) (simp_all add: v_def)
    with IH virt show ?thesis by (simp add: v_def)
  next
    case False
    then have ret: "heap' = heap" "pos' = pos"
      using "1.prems"(1) by (auto simp add: siftup_loop.simps [of heap] l_def Let_def)
    have "hp_dn k pos v"
      using hp_up_leaf [of k pos v] "1.prems"(2,5) False by (simp add: v_def l_def)
    then show ?thesis using ret "1.prems"(3,4) by (simp add: v_def)
  qed
qed

lemma siftup_correct:
  assumes "hp (Suc k) heap" and "k < length heap"
  shows "hp k (siftup heap k) \<and> mset (siftup heap k) = mset heap
       \<and> length (siftup heap k) = length heap"
proof -
  obtain heap' pos' where loop: "siftup_loop heap (length heap) k = (heap', pos')"
    by (cases "siftup_loop heap (length heap) k")
  define v where "v = heap'[pos' := heap ! k]"
  have "hp_up k k (heap[k := heap ! k])"
    using hp_up_start [OF assms(1)] by simp
  from siftup_loop_correct [OF loop refl assms(2) below_refl this]
  have *: "length heap' = length heap" "pos' < length heap" "below k pos'"
    "mset v = mset heap" "hp_dn k pos' v"
    by (simp_all add: v_def)
  have "pos' < length v" using * by (simp add: v_def)
  from siftdown_correct [OF this *(3,5)] *(1,4)
  have "hp k (siftdown v k pos')" "mset (siftdown v k pos') = mset heap"
    "length (siftdown v k pos') = length heap"
    by (simp_all add: v_def)
  then show ?thesis using loop by (simp add: siftup_def v_def)
qed

lemma below_zero: "below 0 p"
proof (induction p rule: less_induct)
  case (less p)
  show ?case
  proof (cases "p = 0")
    case True
    then show ?thesis by (simp add: below_refl)
  next
    case False
    define q where "q = (p - 1) div 2"
    have q: "q < p" "p = 2 * q + 1 \<or> p = 2 * q + 2"
      using False unfolding q_def by presburger+
    with less.IH [of q] show ?thesis
      using below_left [of 0 q] below_right [of 0 q] by auto
  qed
qed

lemma heap_inv_hp: "heap_inv heap \<longleftrightarrow> hp 0 heap"
  unfolding heap_inv_def hp_def Item_lt_def
  by (auto simp add: not_less)

lemma hp_leaves: "length v div 2 \<le> k \<Longrightarrow> hp k v"
  unfolding hp_def by (intro allI impI) linarith

lemma heapify_fold_correct:
  "m \<le> length x \<Longrightarrow> hp m x \<Longrightarrow>
     hp 0 (fold (\<lambda>i heap. siftup heap i) (rev [0 ..< m]) x)
   \<and> mset (fold (\<lambda>i heap. siftup heap i) (rev [0 ..< m]) x) = mset x"
proof (induction m arbitrary: x)
  case 0
  then show ?case by simp
next
  case (Suc m)
  have step: "hp m (siftup x m)" "mset (siftup x m) = mset x" "length (siftup x m) = length x"
    using siftup_correct [of m x] Suc.prems by simp_all
  have "m \<le> length (siftup x m)" using step(3) Suc.prems(1) by simp
  from Suc.IH [OF this step(1)] step(2) show ?case by simp
qed

lemma heapify_correct: "hp 0 (heapify x) \<and> mset (heapify x) = mset x"
proof -
  have "length x div 2 \<le> length x" by simp
  moreover have "hp (length x div 2) x" by (rule hp_leaves) simp
  ultimately show ?thesis
    unfolding heapify_def Let_def by (rule heapify_fold_correct)
qed

lemma heappush_correct:
  assumes "hp 0 heap"
  shows "hp 0 (heappush heap it) \<and> mset (heappush heap it) = add_mset it (mset heap)"
proof -
  define v where "v = heap @ [it]"
  have "hp_dn 0 (length heap) v"
    unfolding hp_dn_def
  proof (intro conjI allI impI)
    fix i
    assume i: "0 < i \<and> i < length v \<and> 0 \<le> (i - 1) div 2 \<and> i \<noteq> length heap"
    then have "i < length heap" by (simp add: v_def)
    moreover from this have "(i - 1) div 2 < length heap" by linarith
    ultimately have "v ! i = heap ! i" "v ! ((i - 1) div 2) = heap ! ((i - 1) div 2)"
      by (simp_all add: v_def nth_append)
    moreover have "review_time (heap ! ((i - 1) div 2)) \<le> review_time (heap ! i)"
      using assms i \<open>i < length heap\<close> unfolding hp_def by simp
    ultimately show "review_time (v ! ((i - 1) div 2)) \<le> review_time (v ! i)" by simp
  next
    fix i
    assume "0 < i \<and> i < length v \<and> (i - 1) div 2 = length heap \<and> 0 < length heap
              \<and> 0 \<le> (length heap - 1) div 2"
    then have False by (simp add: v_def) linarith
    then show "review_time (v ! ((length heap - 1) div 2)) \<le> review_time (v ! i)" ..
  qed
  moreover have "length heap < length v" by (simp add: v_def)
  ultimately have "hp 0 (siftdown v 0 (length heap)) \<and> mset (siftdown v 0 (length heap)) = mset v"
    using siftdown_correct [of "length heap" v 0] below_zero by simp
  then show ?thesis by (simp add: heappush_def v_def)
qed

lemma hp_root_min: "hp 0 v \<Longrightarrow> i < length v \<Longrightarrow> review_time (v ! 0) \<le> review_time (v ! i)"
proof (induction i rule: less_induct)
  case (less i)
  show ?case
  proof (cases "i = 0")
    case True
    then show ?thesis by simp
  next
    case False
    then have par: "(i - 1) div 2 < i" by linarith
    then have "review_time (v ! 0) \<le> review_time (v ! ((i - 1) div 2))"
      using less.IH [of "(i - 1) div 2"] less.prems by simp
    moreover have "review_time (v ! ((i - 1) div 2)) \<le> review_time (v ! i)"
      using less.prems False unfolding hp_def by simp
    ultimately show ?thesis by simp
  qed
qed

lemma heappop_correct:
  assumes "hp 0 heap" and "heap \<noteq> []"
  shows "\<exists>heap'. heappop heap = Inr (heap ! 0, heap') \<and> hp 0 heap'
            \<and> mset heap = add_mset (heap ! 0) (mset heap')
            \<and> (\<forall>y \<in> set heap. review_time (heap ! 0) \<le> review_time y)"
proof -
  have minimal: "\<forall>y \<in> set heap. review_time (heap ! 0) \<le> review_time y"
    using hp_root_min [OF assms(1)] by (auto simp add: in_set_conv_nth)
  show ?thesis
  proof (cases "butlast heap = []")
    case True
    then have "heap = [last heap]"
      using assms(2) by (metis append_butlast_last_id append_Nil)
    then have "heap ! 0 = last heap" by (metis nth_Cons_0)
    then have "heappop heap = Inr (heap ! 0, [])" "mset heap = add_mset (heap ! 0) (mset [])"
      using True assms(2) \<open>heap = [last heap]\<close>
      by (simp_all add: heappop_def)
    moreover have "hp 0 []" by (simp add: hp_def)
    ultimately show ?thesis using minimal by blast
  next
    case False
    define b where "b = butlast heap"
    define h1 where "h1 = b[0 := last heap]"
    have heap_eq: "heap = b @ [last heap]" using assms(2) by (simp add: b_def)
    have bne: "b \<noteq> []" using False by (simp add: b_def)
    then have blen: "0 < length b" by simp
    then have b0: "b ! 0 = heap ! 0" unfolding b_def by (rule nth_butlast)
    have "hp (Suc 0) h1"
      unfolding hp_def
    proof (intro allI impI)
      fix i
      assume i: "0 < i \<and> i < length h1 \<and> Suc 0 \<le> (i - 1) div 2"
      then have il: "i < length b" by (simp add: h1_def)
      then have "h1 ! i = heap ! i" "h1 ! ((i - 1) div 2) = heap ! ((i - 1) div 2)"
        using i by (simp_all add: h1_def b_def nth_butlast)
      moreover have "review_time (heap ! ((i - 1) div 2)) \<le> review_time (heap ! i)"
        using assms(1) i il unfolding hp_def by (simp add: b_def)
      ultimately show "review_time (h1 ! ((i - 1) div 2)) \<le> review_time (h1 ! i)" by simp
    qed
    moreover have "0 < length h1" using blen by (simp add: h1_def)
    ultimately have sift: "hp 0 (siftup h1 0)" "mset (siftup h1 0) = mset h1"
      using siftup_correct [of 0 h1] by simp_all
    have "mset h1 = add_mset (last heap) (mset b - {#b ! 0#})"
      using blen by (simp add: h1_def mset_update)
    moreover have "b ! 0 \<in># mset b" using blen by simp
    moreover have "mset heap = add_mset (last heap) (mset b)"
      using heap_eq by (metis mset.simps(2) mset_append union_mset_add_mset_right add.right_neutral mset.simps(1))
    ultimately have "mset heap = add_mset (heap ! 0) (mset (siftup h1 0))"
      using sift(2) b0 by (simp add: multiset_eq_iff)
    moreover have "heappop heap = Inr (heap ! 0, siftup h1 0)"
      using bne assms(2) b0
      unfolding heappop_def Let_def b_def [symmetric] h1_def [symmetric] by simp
    ultimately show ?thesis using sift(1) minimal by blast
  qed
qed

lemma heappop_nonempty:
  assumes "heap \<noteq> []"
  shows "\<exists>heap'. heappop heap = Inr (heap ! 0, heap')"
proof (cases "butlast heap = []")
  case True
  then have "heap = [last heap]"
    using assms by (metis append_butlast_last_id append_Nil)
  then have "heap ! 0 = last heap" by (metis nth_Cons_0)
  then show ?thesis using True assms by (simp add: heappop_def)
next
  case False
  then have "0 < length (butlast heap)"
    using length_greater_0_conv [of "butlast heap"] by blast
  then have "butlast heap ! 0 = heap ! 0" by (rule nth_butlast)
  then show ?thesis using False assms by (simp add: heappop_def Let_def)
qed

lemma pop_all_correct:
  "hp 0 heap \<Longrightarrow> sorted (map review_time (pop_all heap)) \<and> mset (pop_all heap) = mset heap"
proof (induction "length heap" arbitrary: heap)
  case 0
  then show ?case by (simp add: pop_all.simps [of "[]"])
next
  case (Suc n)
  then have ne: "heap \<noteq> []" by auto
  from heappop_correct [OF Suc.prems ne] obtain heap' where
    pop: "heappop heap = Inr (heap ! 0, heap')" and inv: "hp 0 heap'"
    and ms: "mset heap = add_mset (heap ! 0) (mset heap')"
    and minimal: "\<forall>y \<in> set heap. review_time (heap ! 0) \<le> review_time y"
    by blast
  have "n = length heap'"
    using heappop_length [OF pop] Suc.hyps(2) by simp
  from Suc.hyps(1) [OF this inv]
  have IH: "sorted (map review_time (pop_all heap'))" "mset (pop_all heap') = mset heap'"
    by simp_all
  have unfold: "pop_all heap = heap ! 0 # pop_all heap'"
    using ne pop by (simp add: pop_all.simps [of heap])
  have "set (pop_all heap') \<subseteq> set heap"
    using IH(2) ms by (metis mset_eq_setD set_mset_add_mset_insert set_mset_mset subset_insertI)
  then have "\<forall>y \<in> set (pop_all heap'). review_time (heap ! 0) \<le> review_time y"
    using minimal by blast
  then show ?case
    using unfold IH ms by simp
qed

lemma heap_inv_Nil: "heap_inv []"
  by (simp add: heap_inv_def)

section \<open>Properties of the due queue\<close>

text \<open>
  Claim C7. The list built by \<open>load_items\<close> is a heap on \<open>review_time\<close> holding
  exactly the selected items; popping it until it is empty yields all of them in
  non-decreasing order of \<open>review_time\<close>. Pushing an item onto a heap gives a heap
  again (so the order of later pops is kept), and a pop from a non-empty heap returns
  an item that none of the others precedes and leaves a heap.
\<close>

theorem due_queue_order:
  "heap_inv (load_items db dks)
   \<and> mset (load_items db dks) =
       mset (map (\<lambda>(i, t, n). \<lparr>rowid = i, review_time = t, trial = n\<rparr>) (select_items db dks))
   \<and> sorted (map review_time (pop_all (load_items db dks)))
   \<and> mset (pop_all (load_items db dks)) = mset (load_items db dks)
   \<and> (heap_inv heap \<longrightarrow>
         heap_inv (heappush heap x) \<and> mset (heappush heap x) = add_mset x (mset heap)
         \<and> sorted (map review_time (pop_all (heappush heap x)))
         \<and> mset (pop_all (heappush heap x)) = add_mset x (mset heap))
   \<and> (heap_inv heap \<and> heap \<noteq> [] \<longrightarrow>
         (\<exists>heap'. heappop heap = Inr (heap ! 0, heap') \<and> heap_inv heap'
            \<and> mset heap = add_mset (heap ! 0) (mset heap')
            \<and> (\<forall>y \<in> set heap. review_time (heap ! 0) \<le> review_time y)))"
proof -
  let ?xs = "map (\<lambda>(i, t, n). \<lparr>rowid = i, review_time = t, trial = n\<rparr>) (select_items db dks)"
  have load: "hp 0 (load_items db dks)" "mset (load_items db dks) = mset ?xs"
    using heapify_correct [of ?xs] by (simp_all add: load_items_def)
  have pops: "sorted (map review_time (pop_all (load_items db dks)))"
    "mset (pop_all (load_items db dks)) = mset (load_items db dks)"
    using pop_all_correct [OF load(1)] by simp_all
  have push: "heap_inv (heappush heap x) \<and> mset (heappush heap x) = add_mset x (mset heap)
         \<and> sorted (map review_time (pop_all (heappush heap x)))
         \<and> mset (pop_all (heappush heap x)) = add_mset x (mset heap)" if "heap_inv heap"
  proof -
    have "hp 0 heap" using that by (simp add: heap_inv_hp)
    from heappush_correct [OF this, of x]
    have *: "hp 0 (heappush heap x)" "mset (heappush heap x) = add_mset x (mset heap)"
      by simp_all
    from pop_all_correct [OF *(1)] * show ?thesis by (simp add: heap_inv_hp)
  qed
  have pop: "\<exists>heap'. heappop heap = Inr (heap ! 0, heap') \<and> heap_inv heap'
            \<and> mset heap = add_mset (heap ! 0) (mset heap')
            \<and> (\<forall>y \<in> set heap. review_time (heap ! 0) \<le> review_time y)"
    if "heap_inv heap" "heap \<noteq> []"
    using heappop_correct [of heap] that by (simp add: heap_inv_hp)
  show ?thesis
    using load pops push pop by (simp add: heap_inv_hp)
qed

text \<open>
  Three cards due at 30, 10 and 20 come out as 10, 20, 30; a card due at 5 is pushed
  onto the heap of two others.
\<close>

theorem due_queue_order_witness:
  "heap_inv (load_items
      [\<lparr>row_rowid = 1, row_recalled = 0, row_forgot = 0, row_review_time = 30, row_trial = 0,
        row_question = ''Q1'', row_answer = ''A'', row_history = [], row_deck = ''d''\<rparr>,
       \<lparr>row_rowid = 2, row_recalled = 0, row_forgot = 0, row_review_time = 10, row_trial = 0,
        row_question = ''Q2'', row_answer = ''A'', row_history = [], row_deck = ''d''\<rparr>,
       \<lparr>row_rowid = 3, row_recalled = 0, row_forgot = 0, row_review_time = 20, row_trial = 0,
        row_question = ''Q3'', row_answer = ''A'', row_history = [], row_deck = ''d''\<rparr>] [])
   \<and> pop_all (load_items
      [\<lparr>row_rowid = 1, row_recalled = 0, row_forgot = 0, row_review_time = 30, row_trial = 0,
        row_question = ''Q1'', row_answer = ''A'', row_history = [], row_deck = ''d''\<rparr>,
       \<lparr>row_rowid = 2, row_recalled = 0, row_forgot = 0, row_review_time = 10, row_trial = 0,
        row_question = ''Q2'', row_answer = ''A'', row_history = [], row_deck = ''d''\<rparr>,
       \<lparr>row_rowid = 3, row_recalled = 0, row_forgot = 0, row_review_time = 20, row_trial = 0,
        row_question = ''Q3'', row_answer = ''A'', row_history = [], row_deck = ''d''\<rparr>] []) =
     [\<lparr>rowid = 2, review_time = 10, trial = 0\<rparr>, \<lparr>rowid = 3, review_time = 20, trial = 0\<rparr>,
      \<lparr>rowid = 1, review_time = 30, trial = 0\<rparr>]
   \<and> heap_inv [\<lparr>rowid = 2, review_time = 10, trial = 0\<rparr>, \<lparr>rowid = 1, review_time = 30, trial = 0\<rparr>]
   \<and> heap_inv (heappush [\<lparr>rowid = 2, review_time = 10, trial = 0\<rparr>, \<lparr>rowid = 1, review_time = 30, trial = 0\<rparr>]
        \<lparr>rowid = 3, review_time = 5, trial = 1\<rparr>)
   \<and> sorted (map review_time (pop_all
        (heappush [\<lparr>rowid = 2, review_time = 10, trial = 0\<rparr>, \<lparr>rowid = 1, review_time = 30, trial = 0\<rparr>]
           \<lparr>rowid = 3, review_time = 5, trial = 1\<rparr>)))
   \<and> (\<exists>heap'. heappop [\<lparr>rowid = 2, review_time = 10, trial = 0\<rparr>, \<lparr>rowid = 1, review_time = 30, trial = 0\<rparr>]
          = Inr (\<lparr>rowid = 2, review_time = 10, trial = 0\<rparr>, heap') \<and> heap_inv heap')"
proof -
  have inv: "heap_inv [\<lparr>rowid = 2, review_time = 10, trial = 0\<rparr>, \<lparr>rowid = 1, review_time = 30, trial = 0\<rparr>]"
    by (simp add: heap_inv_def Item_lt_def)
  have pops: "pop_all (load_items
      [\<lparr>row_rowid = 1, row_recalled = 0, row_forgot = 0, row_review_time = 30, row_trial = 0,
        row_question = ''Q1'', row_answer = ''A'', row_history = [], row_deck = ''d''\<rparr>,
       \<lparr>row_rowid = 2, row_recalled = 0, row_forgot = 0, row_review_time = 10, row_trial = 0,
        row_question = ''Q2'', row_answer = ''A'', row_history = [], row_deck = ''d''\<rparr>,
       \<lparr>row_rowid = 3, row_recalled = 0, row_forgot = 0, row_review_time = 20, row_trial = 0,
        row_question = ''Q3'', row_answer = ''A'', row_history = [], row_deck = ''d''\<rparr>] []) =
     [\<lparr>rowid = 2, review_time = 10, trial = 0\<rparr>, \<lparr>rowid = 3, review_time = 20, trial = 0\<rparr>,
      \<lparr>rowid = 1, review_time = 30, trial = 0\<rparr>]"
    by code_simp
  show ?thesis
    using inv pops due_queue_order [of
      "[\<lparr>row_rowid = 1, row_recalled = 0, row_forgot = 0, row_review_time = 30, row_trial = 0,
        row_question = ''Q1'', row_answer = ''A'', row_history = [], row_deck = ''d''\<rparr>,
       \<lparr>row_rowid = 2, row_recalled = 0, row_forgot = 0, row_review_time = 10, row_trial = 0,
        row_question = ''Q2'', row_answer = ''A'', row_history = [], row_deck = ''d''\<rparr>,
       \<lparr>row_rowid = 3, row_recalled = 0, row_forgot = 0, row_review_time = 20, row_trial = 0,
        row_question = ''Q3'', row_answer = ''A'', row_history = [], row_deck = ''d''\<rparr>]" "[]"
      "[\<lparr>rowid = 2, review_time = 10, trial = 0\<rparr>, \<lparr>rowid = 1, review_time = 30, trial = 0\<rparr>]"
      "\<lparr>rowid = 3, review_time = 5, trial = 1\<rparr>"]
    by simp
qed

section \<open>Properties of the review session\<close>

lemma prompt_effect:
  "prompt p e = (r, e') \<Longrightarrow> ticks e' = ticks e \<and> outputs e' = outputs e @ [p]"
  by (auto simp add: prompt_def Let_def split: list.splits)

lemma answer_loop_effect:
  "answer_loop ri e = (r, e') \<Longrightarrow>
     ticks e' = ticks e \<and> (\<exists>n. outputs e' = outputs e @ replicate n (AnswerPrompt ri))"
proof (induction ri e rule: answer_loop.induct)
  case (1 ri e)
  obtain x e1 where p: "prompt (AnswerPrompt ri) e = (x, e1)"
    by (cases "prompt (AnswerPrompt ri) e")
  from prompt_effect [OF p]
  have e1: "ticks e1 = ticks e" "outputs e1 = outputs e @ replicate 1 (AnswerPrompt ri)"
    by simp_all
  show ?case
  proof (cases "\<exists>y. x = Inr y \<and> y \<noteq> ''r'' \<and> y \<noteq> ''f''")
    case True
    then obtain y where y: "x = Inr y" "y \<noteq> ''r''" "y \<noteq> ''f''" by blast
    with p "1.prems" have "answer_loop ri e1 = (r, e')"
      by (simp add: answer_loop.simps [of ri e])
    from "1.IH" [OF p [symmetric] y(1) y(2) y(3) this] obtain n where
      "ticks e' = ticks e1" "outputs e' = outputs e1 @ replicate n (AnswerPrompt ri)"
      by blast
    with e1 have "ticks e' = ticks e"
      "outputs e' = outputs e @ replicate (1 + n) (AnswerPrompt ri)"
      by (simp_all add: replicate_add)
    then show ?thesis by blast
  next
    case False
    with p "1.prems" have "e' = e1"
      by (cases x) (auto simp add: answer_loop.simps [of ri e] split: if_splits)
    with e1 show ?thesis by blast
  qed
qed

lemma review_effect:
  "review ri e = (r, e') \<Longrightarrow>
     ticks e' = ticks e
   \<and> (\<exists>new. outputs e' = outputs e @ new \<and> set new \<subseteq> {QuestionPrompt ri, AnswerPrompt ri})"
proof (induction ri e rule: review.induct)
  case (1 ri e)
  obtain x e1 where p: "prompt (QuestionPrompt ri) e = (x, e1)"
    by (cases "prompt (QuestionPrompt ri) e")
  from prompt_effect [OF p]
  have e1: "ticks e1 = ticks e" "outputs e1 = outputs e @ [QuestionPrompt ri]"
    by simp_all
  consider (stop) "\<forall>y. x \<noteq> Inr y" | (quit) "x = Inr ''q''"
    | (again) y where "x = Inr y" "y \<noteq> ''q''" "y \<noteq> ''a''" | (reveal) "x = Inr ''a''"
    by (cases x) auto
  then show ?case
  proof cases
    case stop
    with p "1.prems" have "e' = e1"
      by (cases x) (auto simp add: review.simps [of ri e])
    with e1 show ?thesis by simp
  next
    case quit
    with p "1.prems" have "e' = e1"
      by (simp add: review.simps [of ri e])
    with e1 show ?thesis by simp
  next
    case again
    with p "1.prems" have "review ri e1 = (r, e')"
      by (simp add: review.simps [of ri e])
    from "1.IH" [OF p [symmetric] again(1) again(2) _ this] again(3) obtain new where
      "ticks e' = ticks e1" "outputs e' = outputs e1 @ new"
      "set new \<subseteq> {QuestionPrompt ri, AnswerPrompt ri}"
      by auto
    with e1 have "ticks e' = ticks e" "outputs e' = outputs e @ (QuestionPrompt ri # new)"
      "set (QuestionPrompt ri # new) \<subseteq> {QuestionPrompt ri, AnswerPrompt ri}"
      by simp_all
    then show ?thesis by blast
  next
    case reveal
    obtain a e2 where al: "answer_loop ri e1 = (a, e2)"
      by (cases "answer_loop ri e1")
    with reveal p "1.prems" have "e' = e2"
      by (auto simp add: review.simps [of ri e] split: sum.splits)
    with answer_loop_effect [OF al] obtain n where
      "ticks e' = ticks e1" "outputs e' = outputs e1 @ replicate n (AnswerPrompt ri)"
      by blast
    with e1 have "ticks e' = ticks e"
      "outputs e' = outputs e @ (QuestionPrompt ri # replicate n (AnswerPrompt ri))"
      "set (QuestionPrompt ri # replicate n (AnswerPrompt ri))
         \<subseteq> {QuestionPrompt ri, AnswerPrompt ri}"
      by auto
    then show ?thesis by blast
  qed
qed

lemma review_quit_inputs:
  "review ri e = (Inr None, e') \<Longrightarrow> \<exists>ignored. inputs e = ignored @ ''q'' # inputs e'"
proof (induction ri e rule: review.induct)
  case (1 ri e)
  obtain x e1 where p: "prompt (QuestionPrompt ri) e = (x, e1)"
    by (cases "prompt (QuestionPrompt ri) e")
  consider (stop) "\<forall>y. x \<noteq> Inr y" | (quit) "x = Inr ''q''"
    | (again) y where "x = Inr y" "y \<noteq> ''q''" "y \<noteq> ''a''" | (reveal) "x = Inr ''a''"
    by (cases x) auto
  then show ?case
  proof cases
    case stop
    with p "1.prems" show ?thesis
      by (cases x) (auto simp add: review.simps [of ri e])
  next
    case quit
    with p "1.prems" have "e' = e1"
      by (simp add: review.simps [of ri e])
    moreover have "inputs e = ''q'' # inputs e1"
      using prompt_consumes p quit by simp
    ultimately have "inputs e = [] @ ''q'' # inputs e'" by simp
    then show ?thesis by blast
  next
    case again
    with p "1.prems" have "review ri e1 = (Inr None, e')"
      by (simp add: review.simps [of ri e])
    from "1.IH" [OF p [symmetric] again(1) again(2) _ this] again(3) obtain ignored where
      "inputs e1 = ignored @ ''q'' # inputs e'"
      by auto
    moreover have "inputs e = y # inputs e1"
      using prompt_consumes p again(1) by simp
    ultimately have "inputs e = (y # ignored) @ ''q'' # inputs e'" by simp
    then show ?thesis by blast
  next
    case reveal
    obtain a e2 where al: "answer_loop ri e1 = (a, e2)"
      by (cases "answer_loop ri e1")
    with reveal p "1.prems" show ?thesis
      by (auto simp add: review.simps [of ri e] split: sum.splits)
  qed
qed

lemma review_quit:
  assumes "inputs e = ignored @ ''q'' # later"
    and "''q'' \<notin> set ignored" and "''a'' \<notin> set ignored"
  shows "review ri e =
           (Inr None, e\<lparr>inputs := later,
                        outputs := outputs e @ replicate (Suc (length ignored)) (QuestionPrompt ri)\<rparr>)"
  using assms
proof (induction ignored arbitrary: e)
  case Nil
  then show ?case
    by (simp add: review.simps [of ri e] prompt_def Let_def)
next
  case (Cons x ignored)
  let ?e1 = "e\<lparr>outputs := outputs e @ [QuestionPrompt ri], inputs := ignored @ ''q'' # later\<rparr>"
  have p: "prompt (QuestionPrompt ri) e = (Inr x, ?e1)"
    using Cons.prems(1) by (simp add: prompt_def Let_def)
  have "inputs ?e1 = ignored @ ''q'' # later" by simp
  from Cons.IH [OF this] Cons.prems(2,3)
  have "review ri ?e1 =
          (Inr None, ?e1\<lparr>inputs := later,
             outputs := outputs ?e1 @ replicate (Suc (length ignored)) (QuestionPrompt ri)\<rparr>)"
    by simp
  moreover have "x \<noteq> ''q''" "x \<noteq> ''a''"
    using Cons.prems(2,3) by auto
  then have "review ri e = review ri ?e1"
    using p by (simp add: review.simps [of ri e])
  ultimately show ?case
    by (simp add: replicate_append_same [symmetric] del: replicate.simps)
       (simp add: replicate_app_Cons_same)
qed

lemma prompt_prefix:
  "prompt p e = (r, e') \<Longrightarrow> \<exists>c. inputs e = c @ inputs e'"
  by (auto simp add: prompt_def Let_def split: list.splits)

lemma answer_loop_prefix:
  "answer_loop ri e = (r, e') \<Longrightarrow> \<exists>c. inputs e = c @ inputs e'"
proof (induction ri e rule: answer_loop.induct)
  case (1 ri e)
  obtain x e1 where p: "prompt (AnswerPrompt ri) e = (x, e1)"
    by (cases "prompt (AnswerPrompt ri) e")
  from prompt_prefix [OF p] obtain c1 where c1: "inputs e = c1 @ inputs e1" by blast
  show ?case
  proof (cases "\<exists>y. x = Inr y \<and> y \<noteq> ''r'' \<and> y \<noteq> ''f''")
    case True
    then obtain y where y: "x = Inr y" "y \<noteq> ''r''" "y \<noteq> ''f''" by blast
    with p "1.prems" have "answer_loop ri e1 = (r, e')"
      by (simp add: answer_loop.simps [of ri e])
    from "1.IH" [OF p [symmetric] y(1) y(2) y(3) this] obtain c2 where
      "inputs e1 = c2 @ inputs e'" by blast
    with c1 have "inputs e = (c1 @ c2) @ inputs e'" by simp
    then show ?thesis by blast
  next
    case False
    with p "1.prems" have "e' = e1"
      by (cases x) (auto simp add: answer_loop.simps [of ri e] split: if_splits)
    with c1 show ?thesis by blast
  qed
qed

lemma review_prefix:
  "review ri e = (r, e') \<Longrightarrow> \<exists>c. inputs e = c @ inputs e'"
proof (induction ri e rule: review.induct)
  case (1 ri e)
  obtain x e1 where p: "prompt (QuestionPrompt ri) e = (x, e1)"
    by (cases "prompt (QuestionPrompt ri) e")
  from prompt_prefix [OF p] obtain c1 where c1: "inputs e = c1 @ inputs e1" by blast
  consider (stop) "\<forall>y. x \<noteq> Inr y" | (quit) "x = Inr ''q''"
    | (again) y where "x = Inr y" "y \<noteq> ''q''" "y \<noteq> ''a''" | (reveal) "x = Inr ''a''"
    by (cases x) auto
  then show ?case
  proof cases
    case stop
    with p "1.prems" have "e' = e1"
      by (cases x) (auto simp add: review.simps [of ri e])
    with c1 show ?thesis by blast
  next
    case quit
    with p "1.prems" have "e' = e1"
      by (simp add: review.simps [of ri e])
    with c1 show ?thesis by blast
  next
    case again
    with p "1.prems" have "review ri e1 = (r, e')"
      by (simp add: review.simps [of ri e])
    from "1.IH" [OF p [symmetric] again(1) again(2) _ this] again(3) obtain c2 where
      "inputs e1 = c2 @ inputs e'" by auto
    with c1 have "inputs e = (c1 @ c2) @ inputs e'" by simp
    then show ?thesis by blast
  next
    case reveal
    obtain a e2 where al: "answer_loop ri e1 = (a, e2)"
      by (cases "answer_loop ri e1")
    with reveal p "1.prems" have "e' = e2"
      by (auto simp add: review.simps [of ri e] split: sum.splits)
    with answer_loop_prefix [OF al] obtain c2 where "inputs e1 = c2 @ inputs e'" by blast
    with c1 have "inputs e = (c1 @ c2) @ inputs e'" by simp
    then show ?thesis by blast
  qed
qed

lemma start_review_quit:
  assumes "items \<noteq> []"
    and "real_of_int (review_time (items ! 0)) \<le> clock (ticks e)"
    and "heappop items = Inr (it, rest)"
    and "make_review_item it db = Inr ri"
    and "inputs e = ignored @ ''q'' # later"
    and "''q'' \<notin> set ignored" and "''a'' \<notin> set ignored"
  shows "start_review clock intervals items db e =
           (None, rest, db,
            e\<lparr>ticks := ticks e + 1, inputs := later,
              outputs := outputs e @ replicate (Suc (length ignored)) (QuestionPrompt ri)\<rparr>)"
proof -
  let ?e1 = "e\<lparr>ticks := ticks e + 1\<rparr>"
  have "inputs ?e1 = ignored @ ''q'' # later" using assms(5) by simp
  from review_quit [OF this assms(6,7), of ri]
  have "review ri ?e1 =
          (Inr None, ?e1\<lparr>inputs := later,
             outputs := outputs ?e1 @ replicate (Suc (length ignored)) (QuestionPrompt ri)\<rparr>)" .
  then show ?thesis
    using assms(1-4) by (simp add: start_review.simps [of clock intervals items] Let_def)
qed


lemma start_review_trace:
  "start_review clock intervals items db e = (res, items', db', e') \<Longrightarrow>
     ticks e \<le> ticks e'
   \<and> (\<exists>new. outputs e' = outputs e @ new
        \<and> (\<forall>ri. QuestionPrompt ri \<in> set new \<longrightarrow>
              (\<exists>j. ticks e \<le> j \<and> j < ticks e'
                 \<and> real_of_int (review_time (item ri)) \<le> clock j)))"
proof (induction clock intervals items db e rule: start_review.induct)
  case (1 clock intervals items db e)
  let ?e1 = "e\<lparr>ticks := ticks e + 1\<rparr>"
  note unfold = start_review.simps [of clock intervals items db e]
  show ?case
  proof (cases "items = [] \<or> \<not> real_of_int (review_time (items ! 0)) \<le> clock (ticks e)")
    case True
    then have "e' = e \<or> e' = ?e1"
      using "1.prems" by (auto simp add: unfold Let_def split: if_splits)
    then show ?thesis by auto
  next
    case False
    then have ne: "items \<noteq> []" and due: "real_of_int (review_time (items ! 0)) \<le> clock (ticks e)"
      by simp_all
    obtain it rest where pop: "heappop items = Inr (it, rest)" and head: "it = items ! 0"
      using heappop_nonempty [OF ne] by blast
    show ?thesis
    proof (cases "make_review_item it db")
      case (Inl err)
      then have "e' = ?e1"
        using "1.prems" ne due pop by (simp add: unfold Let_def)
      then show ?thesis by simp
    next
      case (Inr ri)
      then have ri_item: "item ri = it"
        by (auto simp add: make_review_item_def split: option.splits)
      obtain r e2 where rev: "review ri ?e1 = (r, e2)"
        by (cases "review ri ?e1")
      from review_effect [OF rev] obtain new1 where
        t2: "ticks e2 = ticks e + 1" and o2: "outputs e2 = outputs e @ new1"
        and n1: "set new1 \<subseteq> {QuestionPrompt ri, AnswerPrompt ri}"
        by auto
      have shown1: "\<exists>j. ticks e \<le> j \<and> j < ticks e2
                 \<and> real_of_int (review_time (item ri')) \<le> clock j"
        if "QuestionPrompt ri' \<in> set new1" for ri'
      proof -
        have "ri' = ri" using that n1 by auto
        then show ?thesis using due head ri_item t2 by auto
      qed
      show ?thesis
      proof (cases "\<exists>result. r = Inr (Some result)")
        case False
        then have "e' = e2"
          using "1.prems" ne due pop Inr rev
          by (auto simp add: unfold Let_def split: sum.splits option.splits)
        then show ?thesis using t2 o2 shown1 by auto
      next
        case True
        then obtain result where r: "r = Inr (Some result)" by blast
        let ?e3 = "e2\<lparr>ticks := ticks e2 + 1\<rparr>"
        let ?tr = "if result then add_success (clock (ticks e2)) it intervals
                   else add_failure (clock (ticks e2)) it intervals"
        show ?thesis
        proof (cases ?tr)
          case (Inl err)
          then have "e' = ?e3"
            using "1.prems" ne due pop \<open>make_review_item it db = Inr ri\<close> rev r
            by (simp add: unfold Let_def)
          then show ?thesis using t2 o2 shown1 by (auto intro: less_SucI)
        next
          case tr: (Inr it')
          let ?e4 = "?e3\<lparr>outputs := outputs ?e3 @ [BlankLine]\<rparr>"
          have rec: "start_review clock intervals (heappush rest it') (update_item it' db result) ?e4
                       = (res, items', db', e')"
            using "1.prems" ne due pop \<open>make_review_item it db = Inr ri\<close> rev r tr
            by (simp add: unfold Let_def)
          have "ticks ?e4 \<le> ticks e'
            \<and> (\<exists>new. outputs e' = outputs ?e4 @ new
                 \<and> (\<forall>ri. QuestionPrompt ri \<in> set new \<longrightarrow>
                       (\<exists>j. ticks ?e4 \<le> j \<and> j < ticks e'
                          \<and> real_of_int (review_time (item ri)) \<le> clock j)))"
            using "1.IH" [OF ne refl refl _ pop refl \<open>make_review_item it db = Inr ri\<close>
                rev [symmetric] r refl refl refl tr rec] due
            by simp
          then obtain new2 where t': "ticks e2 + 1 \<le> ticks e'"
            and o': "outputs e' = outputs e2 @ BlankLine # new2"
            and n2: "\<And>ri'. QuestionPrompt ri' \<in> set new2 \<Longrightarrow>
                       \<exists>j. ticks e2 + 1 \<le> j \<and> j < ticks e'
                          \<and> real_of_int (review_time (item ri')) \<le> clock j"
            by auto
          have "outputs e' = outputs e @ (new1 @ BlankLine # new2)"
            using o' o2 by simp
          moreover have "\<exists>j. ticks e \<le> j \<and> j < ticks e'
                 \<and> real_of_int (review_time (item ri')) \<le> clock j"
            if "QuestionPrompt ri' \<in> set (new1 @ BlankLine # new2)" for ri'
          proof -
            from that consider "QuestionPrompt ri' \<in> set new1" | "QuestionPrompt ri' \<in> set new2"
              by auto
            then show ?thesis
            proof cases
              case 1
              from shown1 [OF this] obtain j where
                j: "ticks e \<le> j" "j < ticks e2" "real_of_int (review_time (item ri')) \<le> clock j"
                by blast
              then have "j < ticks e'" using t' by simp
              with j show ?thesis by blast
            next
              case 2
              from n2 [OF this] obtain j where
                j: "ticks e2 + 1 \<le> j" "j < ticks e'" "real_of_int (review_time (item ri')) \<le> clock j"
                by blast
              then have "ticks e \<le> j" using t2 by simp
              with j show ?thesis by blast
            qed
          qed
          moreover have "ticks e \<le> ticks e'" using t' t2 by simp
          ultimately show ?thesis by blast
        qed
      qed
    qed
  qed
qed

lemma start_review_exit:
  "start_review clock intervals items db e = (None, items', db', e') \<Longrightarrow>
     items' = []
   \<or> (ticks e < ticks e' \<and> clock (ticks e' - 1) < real_of_int (review_time (items' ! 0)))
   \<or> (\<exists>consumed. inputs e = consumed @ ''q'' # inputs e')"
proof (induction clock intervals items db e rule: start_review.induct)
  case (1 clock intervals items db e)
  let ?e1 = "e\<lparr>ticks := ticks e + 1\<rparr>"
  note unfold = start_review.simps [of clock intervals items db e]
  show ?case
  proof (cases "items = []")
    case True
    then show ?thesis
      using "1.prems" by (simp add: start_review.simps [of clock intervals "[]"])
  next
    case ne: False
    show ?thesis
    proof (cases "real_of_int (review_time (items ! 0)) \<le> clock (ticks e)")
      case False
      then have "items' = items" "e' = ?e1"
        using "1.prems" ne by (simp_all add: unfold Let_def)
      then show ?thesis using False by simp
    next
      case due: True
      obtain it rest where pop: "heappop items = Inr (it, rest)"
        using heappop_nonempty [OF ne] by blast
      show ?thesis
      proof (cases "make_review_item it db")
        case (Inl err)
        then show ?thesis
          using "1.prems" ne due pop by (simp add: unfold Let_def)
      next
        case mk: (Inr ri)
        obtain r e2 where rev: "review ri ?e1 = (r, e2)"
          by (cases "review ri ?e1")
        from review_effect [OF rev] have t2: "ticks e2 = ticks e + 1" by simp
        from review_prefix [OF rev] obtain c1 where c1: "inputs e = c1 @ inputs e2" by auto
        consider (err) err where "r = Inl err" | (quit) "r = Inr None"
          | (outcome) result where "r = Inr (Some result)"
          by (cases r) auto
        then show ?thesis
        proof cases
          case err
          then show ?thesis
            using "1.prems" ne due pop mk rev by (simp add: unfold Let_def)
        next
          case quit
          then have "e' = e2"
            using "1.prems" ne due pop mk rev by (simp add: unfold Let_def)
          moreover from review_quit_inputs [of ri ?e1 e2] rev quit
          have "\<exists>ignored. inputs e = ignored @ ''q'' # inputs e2" by simp
          ultimately show ?thesis by blast
        next
          case outcome
          let ?e3 = "e2\<lparr>ticks := ticks e2 + 1\<rparr>"
          let ?tr = "if result then add_success (clock (ticks e2)) it intervals
                     else add_failure (clock (ticks e2)) it intervals"
          show ?thesis
          proof (cases ?tr)
            case (Inl err)
            then show ?thesis
              using "1.prems" ne due pop mk rev outcome by (simp add: unfold Let_def)
          next
            case tr: (Inr it')
            let ?e4 = "?e3\<lparr>outputs := outputs ?e3 @ [BlankLine]\<rparr>"
            have rec: "start_review clock intervals (heappush rest it') (update_item it' db result) ?e4
                         = (None, items', db', e')"
              using "1.prems" ne due pop mk rev outcome tr by (simp add: unfold Let_def)
            have "items' = []
              \<or> (ticks ?e4 < ticks e' \<and> clock (ticks e' - 1) < real_of_int (review_time (items' ! 0)))
              \<or> (\<exists>consumed. inputs ?e4 = consumed @ ''q'' # inputs e')"
              using "1.IH" [OF ne refl refl _ pop refl mk rev [symmetric] outcome refl refl refl tr rec]
                due by simp
            then consider "items' = []"
              | "ticks ?e4 < ticks e'" "clock (ticks e' - 1) < real_of_int (review_time (items' ! 0))"
              | consumed where "inputs ?e4 = consumed @ ''q'' # inputs e'"
              by blast
            then show ?thesis
            proof cases
              case 1
              then show ?thesis by simp
            next
              case 2
              then have "ticks e < ticks e'" using t2 by simp
              with 2 show ?thesis by simp
            next
              case 3
              then have "inputs e = (c1 @ consumed) @ ''q'' # inputs e'"
                using c1 by simp
              then show ?thesis by blast
            qed
          qed
        qed
      qed
    qed
  qed
qed

lemma start_review_heap_inv:
  "start_review clock intervals items db e = (res, items', db', e') \<Longrightarrow> hp 0 items \<Longrightarrow> hp 0 items'"
proof (induction clock intervals items db e rule: start_review.induct)
  case (1 clock intervals items db e)
  let ?e1 = "e\<lparr>ticks := ticks e + 1\<rparr>"
  note unfold = start_review.simps [of clock intervals items db e]
  show ?case
  proof (cases "items = [] \<or> \<not> real_of_int (review_time (items ! 0)) \<le> clock (ticks e)")
    case True
    then have "items' = items"
      using "1.prems"(1) by (auto simp add: unfold Let_def split: if_splits)
    then show ?thesis using "1.prems"(2) by simp
  next
    case False
    then have ne: "items \<noteq> []" and due: "real_of_int (review_time (items ! 0)) \<le> clock (ticks e)"
      by simp_all
    from heappop_correct [OF "1.prems"(2) ne] obtain rest where
      pop: "heappop items = Inr (items ! 0, rest)" and inv: "hp 0 rest"
      by blast
    show ?thesis
    proof (cases "make_review_item (items ! 0) db")
      case (Inl err)
      then have "items' = rest"
        using "1.prems"(1) ne due pop by (simp add: unfold Let_def)
      then show ?thesis using inv by simp
    next
      case mk: (Inr ri)
      obtain r e2 where rev: "review ri ?e1 = (r, e2)"
        by (cases "review ri ?e1")
      show ?thesis
      proof (cases "\<exists>result. r = Inr (Some result)")
        case False
        then have "items' = rest"
          using "1.prems"(1) ne due pop mk rev
          by (auto simp add: unfold Let_def split: sum.splits option.splits)
        then show ?thesis using inv by simp
      next
        case True
        then obtain result where r: "r = Inr (Some result)" by blast
        let ?e3 = "e2\<lparr>ticks := ticks e2 + 1\<rparr>"
        let ?tr = "if result then add_success (clock (ticks e2)) (items ! 0) intervals
                   else add_failure (clock (ticks e2)) (items ! 0) intervals"
        show ?thesis
        proof (cases ?tr)
          case (Inl err)
          then have "items' = rest"
            using "1.prems"(1) ne due pop mk rev r by (simp add: unfold Let_def)
          then show ?thesis using inv by simp
        next
          case tr: (Inr it')
          let ?e4 = "?e3\<lparr>outputs := outputs ?e3 @ [BlankLine]\<rparr>"
          have rec: "start_review clock intervals (heappush rest it') (update_item it' db result) ?e4
                       = (res, items', db', e')"
            using "1.prems"(1) ne due pop mk rev r tr by (simp add: unfold Let_def)
          have "hp 0 (heappush rest it')"
            using heappush_correct [OF inv] by simp
          with "1.IH" [OF ne refl refl _ pop refl mk rev [symmetric] r refl refl refl tr rec] due
          show ?thesis by simp
        qed
      qed
    qed
  qed
qed




text \<open>
  Claim C6 fails on the code. With a single card that is due and the input \<^verbatim>\<open>q\<close>,
  \<open>start_review\<close> pops the card and leaves the loop without pushing it back, the
  list is empty, and \<^verbatim>\<open>items[0]\<close> in \<open>main\<close> raises \<^verbatim>\<open>IndexError\<close>.
\<close>

theorem main_quit_on_only_card:
  "fst (main \<lparr>decks = [], show_intervals = False, reviews_param = 20, hours_param = 2160,
              filenames = None, deck = ''default''\<rparr>
          (\<lambda>name. None) (\<lambda>n. 100)
          [\<lparr>row_rowid = 1, row_recalled = 0, row_forgot = 0, row_review_time = 0, row_trial = 0,
            row_question = ''Q'', row_answer = ''A'', row_history = [], row_deck = ''default''\<rparr>]
          \<lparr>inputs = [''q''], ticks = 0, outputs = []\<rparr>) = Some IndexError"
proof -
  let ?db = "[\<lparr>row_rowid = 1, row_recalled = 0, row_forgot = 0, row_review_time = 0, row_trial = 0,
            row_question = ''Q'', row_answer = ''A'', row_history = [], row_deck = ''default''\<rparr>]"
  let ?it = "\<lparr>rowid = 1, review_time = 0, trial = 0\<rparr>"
  let ?e = "\<lparr>inputs = [''q''], ticks = 0, outputs = []\<rparr>"
  obtain tbl where tbl: "compute_intervals 20 2160 = Inr tbl"
    using compute_intervals_ideal [of 20 2160] by auto
  have load: "load_items ?db [] = [?it]"
    by (simp add: load_items_def select_items_def heapify_def)
  have pop: "heappop [?it] = Inr (?it, [])"
    by (simp add: heappop_def)
  have mk: "make_review_item ?it ?db = Inr \<lparr>item = ?it, recalled = 0, forgot = 0,
      question = ''Q'', answer = ''A'', history = []\<rparr>"
    by (simp add: make_review_item_def)
  have inp: "inputs ?e = [] @ ''q'' # []" by simp
  have "start_review (\<lambda>n. 100) tbl [?it] ?db ?e =
          (None, [], ?db, \<lparr>inputs = [], ticks = 1,
             outputs = [QuestionPrompt \<lparr>item = ?it, recalled = 0, forgot = 0,
               question = ''Q'', answer = ''A'', history = []\<rparr>]\<rparr>)"
    using start_review_quit [where clock = "\<lambda>n. 100" and e = ?e and intervals = tbl, OF _ _ pop mk inp]
    by simp
  then show ?thesis
    using tbl load
    by (simp add: main_def py_getitem_def Let_def)
qed

text \<open>
  Claim C8. On an empty queue the loop returns at once, and on a queue whose first
  item is due after the clock reading it returns after that one reading; in both
  cases nothing is printed. In any run of the loop, every question prompt printed is
  for an item whose \<open>review_time\<close> was at or before a clock reading taken during the
  run, so a card due in the future is never shown. When the loop returns without an
  exception, the queue is empty, or its first item is due after the last clock
  reading, or the last line read was \<^verbatim>\<open>q\<close>. The queue stays a heap, so its first item
  is the earliest.
\<close>

theorem session_loop_guard:
  "start_review clock intervals [] db e = (None, [], db, e)
   \<and> (waiting \<noteq> [] \<and> clock (ticks e) < real_of_int (review_time (waiting ! 0)) \<longrightarrow>
        start_review clock intervals waiting db e = (None, waiting, db, e\<lparr>ticks := ticks e + 1\<rparr>))
   \<and> (start_review clock intervals items db e = (res, items', db', e') \<longrightarrow>
        (\<exists>new. outputs e' = outputs e @ new
           \<and> (\<forall>ri. QuestionPrompt ri \<in> set new \<longrightarrow>
                 (\<exists>j. ticks e \<le> j \<and> j < ticks e'
                    \<and> real_of_int (review_time (item ri)) \<le> clock j)))
      \<and> (res = None \<longrightarrow>
            items' = []
          \<or> (ticks e < ticks e'
               \<and> clock (ticks e' - 1) < real_of_int (review_time (items' ! 0)))
          \<or> (\<exists>consumed. inputs e = consumed @ ''q'' # inputs e'))
      \<and> (heap_inv items \<longrightarrow>
            heap_inv items' \<and> (\<forall>y \<in> set items'. review_time (items' ! 0) \<le> review_time y)))"
proof (intro conjI impI)
  show "start_review clock intervals [] db e = (None, [], db, e)"
    by (simp add: start_review.simps [of clock intervals "[]"])
next
  assume "waiting \<noteq> [] \<and> clock (ticks e) < real_of_int (review_time (waiting ! 0))"
  then show "start_review clock intervals waiting db e =
               (None, waiting, db, e\<lparr>ticks := ticks e + 1\<rparr>)"
    by (simp add: start_review.simps [of clock intervals waiting] Let_def)
next
  assume run: "start_review clock intervals items db e = (res, items', db', e')"
  from start_review_trace [OF run]
  show "\<exists>new. outputs e' = outputs e @ new
           \<and> (\<forall>ri. QuestionPrompt ri \<in> set new \<longrightarrow>
                 (\<exists>j. ticks e \<le> j \<and> j < ticks e'
                    \<and> real_of_int (review_time (item ri)) \<le> clock j))"
    by blast
next
  assume "start_review clock intervals items db e = (res, items', db', e')" and "res = None"
  then have "start_review clock intervals items db e = (None, items', db', e')" by simp
  then show "items' = []
          \<or> (ticks e < ticks e'
               \<and> clock (ticks e' - 1) < real_of_int (review_time (items' ! 0)))
          \<or> (\<exists>consumed. inputs e = consumed @ ''q'' # inputs e')"
    by (rule start_review_exit)
next
  assume run: "start_review clock intervals items db e = (res, items', db', e')"
    and "heap_inv items"
  then have inv: "hp 0 items'"
    using start_review_heap_inv [OF run] by (simp add: heap_inv_hp)
  then show "heap_inv items'" by (simp add: heap_inv_hp)
  show "\<forall>y \<in> set items'. review_time (items' ! 0) \<le> review_time y"
    using hp_root_min [OF inv] by (auto simp add: in_set_conv_nth)
qed

text \<open>
  An empty queue; a card due at 200 with the clock at 100; and a due card recalled
  once, after which it is due at 3700 and the loop stops.
\<close>

theorem session_loop_guard_witness:
  "start_review (\<lambda>n. 100) [0, 3600] []
      [\<lparr>row_rowid = 1, row_recalled = 0, row_forgot = 0, row_review_time = 0, row_trial = 0,
        row_question = ''Q'', row_answer = ''A'', row_history = [], row_deck = ''d''\<rparr>]
      \<lparr>inputs = [''a'', ''r''], ticks = 0, outputs = []\<rparr> =
     (None, [],
      [\<lparr>row_rowid = 1, row_recalled = 0, row_forgot = 0, row_review_time = 0, row_trial = 0,
        row_question = ''Q'', row_answer = ''A'', row_history = [], row_deck = ''d''\<rparr>],
      \<lparr>inputs = [''a'', ''r''], ticks = 0, outputs = []\<rparr>)
   \<and> start_review (\<lambda>n. 100) [0, 3600] [\<lparr>rowid = 1, review_time = 200, trial = 0\<rparr>]
      [\<lparr>row_rowid = 1, row_recalled = 0, row_forgot = 0, row_review_time = 0, row_trial = 0,
        row_question = ''Q'', row_answer = ''A'', row_history = [], row_deck = ''d''\<rparr>]
      \<lparr>inputs = [''a'', ''r''], ticks = 0, outputs = []\<rparr> =
     (None, [\<lparr>rowid = 1, review_time = 200, trial = 0\<rparr>],
      [\<lparr>row_rowid = 1, row_recalled = 0, row_forgot = 0, row_review_time = 0, row_trial = 0,
        row_question = ''Q'', row_answer = ''A'', row_history = [], row_deck = ''d''\<rparr>],
      \<lparr>inputs = [''a'', ''r''], ticks = 1, outputs = []\<rparr>)
   \<and> start_review (\<lambda>n. 100) [0, 3600] [\<lparr>rowid = 1, review_time = 0, trial = 0\<rparr>]
      [\<lparr>row_rowid = 1, row_recalled = 0, row_forgot = 0, row_review_time = 0, row_trial = 0,
        row_question = ''Q'', row_answer = ''A'', row_history = [], row_deck = ''d''\<rparr>]
      \<lparr>inputs = [''a'', ''r''], ticks = 0, outputs = []\<rparr> =
     (None, [\<lparr>rowid = 1, review_time = 3700, trial = 1\<rparr>],
      [\<lparr>row_rowid = 1, row_recalled = 1, row_forgot = 0, row_review_time = 3700, row_trial = 1,
        row_question = ''Q'', row_answer = ''A'', row_history = ''o'', row_deck = ''d''\<rparr>],
      \<lparr>inputs = [], ticks = 3,
        outputs = [QuestionPrompt \<lparr>item = \<lparr>rowid = 1, review_time = 0, trial = 0\<rparr>, recalled = 0,
                     forgot = 0, question = ''Q'', answer = ''A'', history = []\<rparr>,
                   AnswerPrompt \<lparr>item = \<lparr>rowid = 1, review_time = 0, trial = 0\<rparr>, recalled = 0,
                     forgot = 0, question = ''Q'', answer = ''A'', history = []\<rparr>,
                   BlankLine]\<rparr>)
   \<and> heap_inv [\<lparr>rowid = 1, review_time = 3700, trial = 1\<rparr>]
   \<and> (100 :: real) < real_of_int (review_time ([\<lparr>rowid = 1, review_time = 3700, trial = 1\<rparr>] ! 0))"
  using session_loop_guard [of "\<lambda>n. 100" "[0, 3600]"
      "[\<lparr>row_rowid = 1, row_recalled = 0, row_forgot = 0, row_review_time = 0, row_trial = 0,
        row_question = ''Q'', row_answer = ''A'', row_history = [], row_deck = ''d''\<rparr>]"
      "\<lparr>inputs = [''a'', ''r''], ticks = 0, outputs = []\<rparr>"
      "[\<lparr>rowid = 1, review_time = 200, trial = 0\<rparr>]"
      "[\<lparr>rowid = 1, review_time = 0, trial = 0\<rparr>]"
      None "[\<lparr>rowid = 1, review_time = 3700, trial = 1\<rparr>]"
      "[\<lparr>row_rowid = 1, row_recalled = 1, row_forgot = 0, row_review_time = 3700, row_trial = 1,
        row_question = ''Q'', row_answer = ''A'', row_history = ''o'', row_deck = ''d''\<rparr>]"
      "\<lparr>inputs = [], ticks = 3,
        outputs = [QuestionPrompt \<lparr>item = \<lparr>rowid = 1, review_time = 0, trial = 0\<rparr>, recalled = 0,
                     forgot = 0, question = ''Q'', answer = ''A'', history = []\<rparr>,
                   AnswerPrompt \<lparr>item = \<lparr>rowid = 1, review_time = 0, trial = 0\<rparr>, recalled = 0,
                     forgot = 0, question = ''Q'', answer = ''A'', history = []\<rparr>,
                   BlankLine]\<rparr>"]
  by (simp add: start_review.simps heappop_def make_review_item_def review.simps
      answer_loop.simps prompt_def Let_def add_success_def update_items_def py_getitem_def
      py_int_def heappush_def siftdown_def siftdown_loop.simps update_item_def heap_inv_def)



section \<open>Properties of the import\<close>











end
